theory Spec2Isabelle
  imports Main "HOL-Library.Word" "HOL-Library.Sublist"
begin

section \<open>Data model of \<^verbatim>\<open>compress_io.c\<close>\<close>

text \<open>
  The file under verification is \<^verbatim>\<open>src/bin/pg_dump/compress_io.c\<close>: the layer
  through which an archiver writes or reads one member's payload, compressed with zlib
  or not.  Everything the file only calls is a parameter of the model:
  \<^item> the zlib codec (\<^verbatim>\<open>deflateInit\<close>, \<^verbatim>\<open>deflate\<close>, \<^verbatim>\<open>deflateEnd\<close>,
    \<^verbatim>\<open>inflateInit\<close>, \<^verbatim>\<open>inflate\<close>, \<^verbatim>\<open>inflateEnd\<close>), over abstract internal states;
  \<^item> the constants of the missing header \<^verbatim>\<open>compress_io.h\<close> (\<^verbatim>\<open>ZLIB_OUT_SIZE\<close>,
    \<^verbatim>\<open>ZLIB_IN_SIZE\<close>) and the build switch \<^verbatim>\<open>HAVE_LIBZ\<close>;
  \<^item> \<^verbatim>\<open>malloc\<close>, which may return \<^verbatim>\<open>NULL\<close>;
  \<^item> the callbacks \<^verbatim>\<open>writeF\<close>, \<^verbatim>\<open>readF\<close> and the archiver's \<^verbatim>\<open>ahwrite\<close>, which
    act on the state behind the \<^verbatim>\<open>ArchiveHandle\<close>.
  Lengths are natural numbers.  Where the file stores the \<^verbatim>\<open>size_t\<close> length of a caller's
  buffer in the \<^verbatim>\<open>uInt\<close> field \<^verbatim>\<open>avail_in\<close> of the stream, the model cuts it to 32 bits
  as the assignment does (\<open>uInt\<close> below).
\<close>

type_synonym byte = "8 word"

text \<open>The return codes of zlib (\<^verbatim>\<open>zlib.h\<close>).\<close>

datatype zres =
    Z_OK | Z_STREAM_END | Z_NEED_DICT | Z_ERRNO | Z_STREAM_ERROR
  | Z_DATA_ERROR | Z_MEM_ERROR | Z_BUF_ERROR | Z_VERSION_ERROR

text \<open>The flush argument of \<^verbatim>\<open>deflate\<close>; the file uses these two values only.\<close>

datatype zflush = Z_NO_FLUSH | Z_FINISH

text \<open>\<^verbatim>\<open>Z_DEFAULT_COMPRESSION\<close> is \<^verbatim>\<open>(-1)\<close> in \<^verbatim>\<open>zlib.h\<close>.\<close>

definition Z_DEFAULT_COMPRESSION :: int where
  "Z_DEFAULT_COMPRESSION = - 1"

text \<open>
  The enum \<^verbatim>\<open>CompressionAlgorithm\<close>.  An object of a C enum type can hold values that
  are none of its enumerators, and the \<^verbatim>\<open>switch\<close> of \<^verbatim>\<open>WriteDataToArchive\<close> has a path
  for them; \<open>COMPR_ALG_other\<close> stands for any such value.
\<close>

datatype CompressionAlgorithm = COMPR_ALG_NONE | COMPR_ALG_LIBZ | COMPR_ALG_other

text \<open>
  The fatal conditions, named as the specification names them; each is one message of
  \<^verbatim>\<open>die_horribly\<close> in the file:
  \<^item> \<open>InvalidConfiguration c\<close>: "Invalid compression code: c";
  \<^item> \<open>UnsupportedAlgorithm\<close>: "not built with zlib support";
  \<^item> \<open>OutOfMemory\<close>: "out of memory";
  \<^item> \<open>CodecInitFailure\<close>: "could not initialize compression library";
  \<^item> \<open>CodecError\<close>: "could not compress data", "could not uncompress data";
  \<^item> \<open>DownstreamWriteFailure\<close>: "could not write to output file";
  \<^item> \<open>CodecCloseFailure\<close>: "could not close compression stream",
    "could not close compression library".
  The last two constructors are not messages: they mark the two places where the C code
  would leave defined behaviour (a \<^verbatim>\<open>NULL\<close> \<^verbatim>\<open>cs->zp\<close> dereferenced, a store behind
  the end of the output buffer).
\<close>

datatype error =
    InvalidConfiguration int
  | UnsupportedAlgorithm
  | OutOfMemory
  | CodecInitFailure
  | CodecError
  | DownstreamWriteFailure
  | CodecCloseFailure
  | NullDereference
  | OutOfBoundsWrite

text \<open>The blocks the file allocates: three on the write path, three on the read path.\<close>

datatype block =
    Blk_cs | Blk_zp | Blk_zlibOut
  | Blk_read_zp | Blk_read_buf | Blk_read_out

text \<open>
  The world outside the compressor: the state behind the \<^verbatim>\<open>ArchiveHandle\<close> (all that
  the callbacks can change) and the set of blocks allocated and not yet freed.
\<close>

record 'ah world =
  AH :: 'ah
  heap :: "block set"

text \<open>
  Modelled from the spec: \<^verbatim>\<open>die_horribly\<close> is defined outside the file; the
  specification gives it as "report fatal condition and stop", and the file relies on
  its not returning (the comment in \<^verbatim>\<open>WriteDataToArchiveZlib\<close>, the \<^verbatim>\<open>NULL\<close> checks
  after \<^verbatim>\<open>malloc\<close>).  A call is the left injection of the result, carrying the condition
  and the world as it is at that moment; nothing after the call is executed.
\<close>

type_synonym ('ah, 'a) result = "(error \<times> 'ah world) + 'a"

definition die_horribly :: "error \<Rightarrow> 'ah world \<Rightarrow> ('ah, 'a) result" where
  "die_horribly e w = Inl (e, w)"

text \<open>
  The \<^verbatim>\<open>z_stream\<close> fields the file touches.  \<open>next_in\<close> holds the \<^verbatim>\<open>avail_in\<close> bytes
  that \<^verbatim>\<open>next_in\<close> points to; \<open>next_out\<close> holds the bytes stored between the start of
  the output buffer and the pointer \<^verbatim>\<open>next_out\<close> (the file only ever sets that pointer
  to the start of the buffer).
\<close>

record 'z z_stream =
  next_in :: "byte list"
  next_out :: "byte list"
  avail_out :: nat
  zstate :: 'z

definition avail_in :: "'z z_stream \<Rightarrow> nat" where
  "avail_in z = length (next_in z)"

text \<open>
  zlib's \<^verbatim>\<open>uInt\<close> is \<^verbatim>\<open>unsigned int\<close>, 32 bits wide on the platforms of the file, and
  \<^verbatim>\<open>size_t\<close> may be wider: an assignment of a \<^verbatim>\<open>size_t\<close> to \<^verbatim>\<open>avail_in\<close> keeps the
  low 32 bits of the value.  The stream then sees that many bytes of the buffer, from
  its start.
\<close>

definition uInt :: "nat \<Rightarrow> nat" where
  "uInt n = unat (word_of_nat n :: 32 word)"

text \<open>
  The environment of one build: the codec over compressor states \<open>'c\<close> and decompressor
  states \<open>'d\<close>, the header's constants, and which allocations succeed.  A codec step
  gets the internal state, the input on offer and the free output space, and returns its
  code, the new state, how many input bytes it took and the bytes it produced.
\<close>

record ('c, 'd) build =
  HAVE_LIBZ :: bool
  ZLIB_OUT_SIZE :: nat
  ZLIB_IN_SIZE :: nat
  malloc_ok :: "block \<Rightarrow> bool"
  zlib_deflateInit :: "int \<Rightarrow> zres \<times> 'c"
  zlib_deflate :: "'c \<Rightarrow> byte list \<Rightarrow> nat \<Rightarrow> zflush \<Rightarrow> zres \<times> 'c \<times> nat \<times> byte list"
  zlib_deflateEnd :: "'c \<Rightarrow> zres"
  zlib_inflateInit :: "zres \<times> 'd"
  zlib_inflate :: "'d \<Rightarrow> byte list \<Rightarrow> nat \<Rightarrow> zres \<times> 'd \<times> nat \<times> byte list"
  zlib_inflateEnd :: "'d \<Rightarrow> zres"

text \<open>\<^verbatim>\<open>struct CompressorState\<close>; \<open>zp = None\<close> is the \<^verbatim>\<open>NULL\<close> that \<^verbatim>\<open>calloc\<close> leaves.\<close>

record ('ah, 'c) CompressorState =
  writeF :: "'ah \<Rightarrow> byte list \<Rightarrow> 'ah \<times> nat"
  comprAlg :: CompressionAlgorithm
  zp :: "'c z_stream option"
  zlibOutSize :: nat

section \<open>The library calls\<close>

definition malloc :: "('c, 'd) build \<Rightarrow> block \<Rightarrow> 'ah world \<Rightarrow> 'ah world option" where
  "malloc env b w =
     (if malloc_ok env b then Some (w\<lparr>heap := insert b (heap w)\<rparr>) else None)"

definition free :: "block \<Rightarrow> 'ah world \<Rightarrow> 'ah world" where
  "free b w = w\<lparr>heap := heap w - {b}\<rparr>"

text \<open>
  \<^verbatim>\<open>deflate(zp, flush)\<close> and \<^verbatim>\<open>inflate(zp, 0)\<close> on a \<^verbatim>\<open>z_stream\<close>.  zlib never reads
  more than \<^verbatim>\<open>avail_in\<close> bytes nor stores more than \<^verbatim>\<open>avail_out\<close> bytes; the two
  cut-offs below are that interface, whatever the codec parameter answers.
\<close>

definition deflate ::
  "('c, 'd) build \<Rightarrow> 'c z_stream \<Rightarrow> zflush \<Rightarrow> zres \<times> 'c z_stream" where
  "deflate env z fl =
     (case zlib_deflate env (zstate z) (next_in z) (avail_out z) fl of
        (r, s, n, out) \<Rightarrow>
          (r, z\<lparr>next_in := drop (min n (avail_in z)) (next_in z),
                next_out := next_out z @ take (avail_out z) out,
                avail_out := avail_out z - length (take (avail_out z) out),
                zstate := s\<rparr>))"

definition inflate :: "('c, 'd) build \<Rightarrow> 'd z_stream \<Rightarrow> zres \<times> 'd z_stream" where
  "inflate env z =
     (case zlib_inflate env (zstate z) (next_in z) (avail_out z) of
        (r, s, n, out) \<Rightarrow>
          (r, z\<lparr>next_in := drop (min n (avail_in z)) (next_in z),
                next_out := next_out z @ take (avail_out z) out,
                avail_out := avail_out z - length (take (avail_out z) out),
                zstate := s\<rparr>))"

section \<open>The functions of the file\<close>

subsection \<open>\<^verbatim>\<open>ParseCompressionOption\<close>\<close>

definition ParseCompressionOption ::
  "int \<Rightarrow> 'ah world \<Rightarrow> ('ah, CompressionAlgorithm \<times> int) result" where
  "ParseCompressionOption compression w =
     (if compression = Z_DEFAULT_COMPRESSION \<or> (0 < compression \<and> compression \<le> 9)
      then Inr (COMPR_ALG_LIBZ, compression)
      else if compression = 0 then Inr (COMPR_ALG_NONE, compression)
      else die_horribly (InvalidConfiguration compression) w)"

subsection \<open>\<^verbatim>\<open>InitCompressorZlib\<close> and \<^verbatim>\<open>AllocateCompressor\<close>\<close>

definition InitCompressorZlib ::
  "('c, 'd) build \<Rightarrow> ('ah, 'c) CompressorState \<Rightarrow> int \<Rightarrow> 'ah world
     \<Rightarrow> ('ah, ('ah, 'c) CompressorState \<times> 'ah world) result" where
  "InitCompressorZlib env cs level w =
     (case malloc env Blk_zp w of
        None \<Rightarrow> die_horribly OutOfMemory w
      | Some w1 \<Rightarrow>
          (case malloc env Blk_zlibOut w1 of
             None \<Rightarrow> die_horribly OutOfMemory w1
           | Some w2 \<Rightarrow>
               (case zlib_deflateInit env level of
                  (r, s) \<Rightarrow>
                    if r \<noteq> Z_OK then die_horribly CodecInitFailure w2
                    else Inr (cs\<lparr>zp := Some \<lparr>next_in = [], next_out = [],
                                              avail_out = ZLIB_OUT_SIZE env, zstate = s\<rparr>,
                                  zlibOutSize := ZLIB_OUT_SIZE env\<rparr>, w2))))"

definition AllocateCompressor ::
  "('c, 'd) build \<Rightarrow> int \<Rightarrow> ('ah \<Rightarrow> byte list \<Rightarrow> 'ah \<times> nat) \<Rightarrow> 'ah world
     \<Rightarrow> ('ah, ('ah, 'c) CompressorState \<times> 'ah world) result" where
  "AllocateCompressor env compression wF w =
     (case ParseCompressionOption compression w of
        Inl e \<Rightarrow> Inl e
      | Inr (alg, level) \<Rightarrow>
          if \<not> HAVE_LIBZ env \<and> alg = COMPR_ALG_LIBZ
          then die_horribly UnsupportedAlgorithm w
          else
            (case malloc env Blk_cs w of
               None \<Rightarrow> die_horribly OutOfMemory w
             | Some w1 \<Rightarrow>
                 let cs = \<lparr>writeF = wF, comprAlg = alg, zp = None, zlibOutSize = 0\<rparr>
                 in if HAVE_LIBZ env \<and> alg = COMPR_ALG_LIBZ
                    then InitCompressorZlib env cs level w1
                    else Inr (cs, w1)))"

subsection \<open>\<^verbatim>\<open>DeflateCompressorZlib\<close>\<close>

text \<open>
  One pass through the body of the \<^verbatim>\<open>while\<close> loop, up to the test of \<^verbatim>\<open>res\<close> against
  \<^verbatim>\<open>Z_STREAM_END\<close>: the codec call, the test for \<^verbatim>\<open>Z_STREAM_ERROR\<close>, and the flush of
  the staging buffer through \<^verbatim>\<open>writeF\<close>.
\<close>

definition DeflateCompressorZlib_body ::
  "('c, 'd) build \<Rightarrow> ('ah, 'c) CompressorState \<Rightarrow> bool \<Rightarrow> 'c z_stream \<Rightarrow> 'ah world
     \<Rightarrow> ('ah, 'c z_stream \<times> zres \<times> 'ah world) result" where
  "DeflateCompressorZlib_body env cs flush z w =
     (case deflate env z (if flush then Z_FINISH else Z_NO_FLUSH) of
        (res, z1) \<Rightarrow>
          if res = Z_STREAM_ERROR then die_horribly CodecError w
          else if (flush \<and> avail_out z1 < zlibOutSize cs)
                  \<or> avail_out z1 = 0 \<or> avail_in z1 \<noteq> 0
          then
            (if avail_out z1 < zlibOutSize cs
             then
               (let len = zlibOutSize cs - avail_out z1 in
                case writeF cs (AH w) (take len (next_out z1)) of
                  (ah, n) \<Rightarrow>
                    if n \<noteq> len then die_horribly DownstreamWriteFailure (w\<lparr>AH := ah\<rparr>)
                    else Inr (z1\<lparr>next_out := [], avail_out := zlibOutSize cs\<rparr>,
                              res, w\<lparr>AH := ah\<rparr>))
             else Inr (z1\<lparr>next_out := [], avail_out := zlibOutSize cs\<rparr>, res, w))
          else Inr (z1, res, w))"

text \<open>
  The loop, over the stream \<open>z\<close>, the local \<open>res\<close> and the world.  The codec decides
  whether it ends, so the result is an option: \<open>None\<close> is a loop that never exits.
\<close>

partial_function (option) DeflateCompressorZlib_loop ::
  "('c, 'd) build \<Rightarrow> ('ah, 'c) CompressorState \<Rightarrow> bool \<Rightarrow> 'c z_stream \<Rightarrow> zres
     \<Rightarrow> 'ah world \<Rightarrow> ('ah, 'c z_stream \<times> zres \<times> 'ah world) result option" where
  "DeflateCompressorZlib_loop env cs flush z res w =
     (if avail_in z \<noteq> 0 \<or> flush
      then
        (case DeflateCompressorZlib_body env cs flush z w of
           Inl e \<Rightarrow> Some (Inl e)
         | Inr (z1, res1, w1) \<Rightarrow>
             if res1 = Z_STREAM_END then Some (Inr (z1, res1, w1))
             else DeflateCompressorZlib_loop env cs flush z1 res1 w1)
      else Some (Inr (z, res, w)))"

declare DeflateCompressorZlib_loop.simps [code]

text \<open>
  The function itself: \<open>zp\<close> is read from the context, the loop starts with
  \<^verbatim>\<open>res = Z_OK\<close>, and the stream changed in place is the context's stream afterwards.
\<close>

definition DeflateCompressorZlib ::
  "('c, 'd) build \<Rightarrow> ('ah, 'c) CompressorState \<Rightarrow> bool \<Rightarrow> 'ah world
     \<Rightarrow> ('ah, ('ah, 'c) CompressorState \<times> 'ah world) result option" where
  "DeflateCompressorZlib env cs flush w =
     (case zp cs of
        None \<Rightarrow> Some (Inl (NullDereference, w))
      | Some z \<Rightarrow>
          (case DeflateCompressorZlib_loop env cs flush z Z_OK w of
             None \<Rightarrow> None
           | Some (Inl e) \<Rightarrow> Some (Inl e)
           | Some (Inr (z1, res, w1)) \<Rightarrow> Some (Inr (cs\<lparr>zp := Some z1\<rparr>, w1))))"

subsection \<open>\<^verbatim>\<open>WriteDataToArchiveZlib\<close>, \<^verbatim>\<open>WriteDataToArchiveNone\<close>, \<^verbatim>\<open>WriteDataToArchive\<close>\<close>

text \<open>
  A write returns the accepted length, the context and the world.  In
  \<^verbatim>\<open>WriteDataToArchiveZlib\<close>, \<^verbatim>\<open>cs->zp->avail_in = dLen\<close> stores a \<^verbatim>\<open>size_t\<close> in a
  \<^verbatim>\<open>uInt\<close>: the stream is offered the first \<open>uInt dLen\<close> bytes of the data, and the
  function still returns \<^verbatim>\<open>dLen\<close>.
\<close>

definition WriteDataToArchiveZlib ::
  "('c, 'd) build \<Rightarrow> ('ah, 'c) CompressorState \<Rightarrow> byte list \<Rightarrow> 'ah world
     \<Rightarrow> ('ah, nat \<times> ('ah, 'c) CompressorState \<times> 'ah world) result option" where
  "WriteDataToArchiveZlib env cs data w =
     (case zp cs of
        None \<Rightarrow> Some (Inl (NullDereference, w))
      | Some z \<Rightarrow>
          (case DeflateCompressorZlib env (cs\<lparr>zp := Some (z\<lparr>next_in := take (uInt (length data)) data\<rparr>)\<rparr>)
                  False w of
             None \<Rightarrow> None
           | Some (Inl e) \<Rightarrow> Some (Inl e)
           | Some (Inr (cs1, w1)) \<Rightarrow> Some (Inr (length data, cs1, w1))))"

definition WriteDataToArchiveNone ::
  "('ah, 'c) CompressorState \<Rightarrow> byte list \<Rightarrow> 'ah world
     \<Rightarrow> ('ah, nat \<times> ('ah, 'c) CompressorState \<times> 'ah world) result" where
  "WriteDataToArchiveNone cs data w =
     (case writeF cs (AH w) data of
        (ah, n) \<Rightarrow>
          if n \<noteq> length data then die_horribly DownstreamWriteFailure (w\<lparr>AH := ah\<rparr>)
          else Inr (length data, cs, w\<lparr>AH := ah\<rparr>))"

text \<open>
  The \<^verbatim>\<open>switch\<close>: without \<^verbatim>\<open>HAVE_LIBZ\<close> the zlib case is the call of
  \<^verbatim>\<open>die_horribly\<close>; a value that is neither enumerator leaves the \<^verbatim>\<open>switch\<close> and
  reaches \<^verbatim>\<open>return 0\<close>.
\<close>

definition WriteDataToArchive ::
  "('c, 'd) build \<Rightarrow> ('ah, 'c) CompressorState \<Rightarrow> byte list \<Rightarrow> 'ah world
     \<Rightarrow> ('ah, nat \<times> ('ah, 'c) CompressorState \<times> 'ah world) result option" where
  "WriteDataToArchive env cs data w =
     (case comprAlg cs of
        COMPR_ALG_LIBZ \<Rightarrow>
          if HAVE_LIBZ env then WriteDataToArchiveZlib env cs data w
          else Some (die_horribly UnsupportedAlgorithm w)
      | COMPR_ALG_NONE \<Rightarrow> Some (WriteDataToArchiveNone cs data w)
      | COMPR_ALG_other \<Rightarrow> Some (Inr (0, cs, w)))"

subsection \<open>\<^verbatim>\<open>EndCompressorZlib\<close> and \<^verbatim>\<open>EndCompressor\<close>\<close>

definition EndCompressorZlib ::
  "('c, 'd) build \<Rightarrow> ('ah, 'c) CompressorState \<Rightarrow> 'ah world
     \<Rightarrow> ('ah, 'ah world) result option" where
  "EndCompressorZlib env cs w =
     (case zp cs of
        None \<Rightarrow> Some (Inl (NullDereference, w))
      | Some z \<Rightarrow>
          (case DeflateCompressorZlib env (cs\<lparr>zp := Some (z\<lparr>next_in := []\<rparr>)\<rparr>) True w of
             None \<Rightarrow> None
           | Some (Inl e) \<Rightarrow> Some (Inl e)
           | Some (Inr (cs1, w1)) \<Rightarrow>
               (case zp cs1 of
                  None \<Rightarrow> Some (Inl (NullDereference, w1))
                | Some z1 \<Rightarrow>
                    if zlib_deflateEnd env (zstate z1) \<noteq> Z_OK
                    then Some (die_horribly CodecCloseFailure w1)
                    else Some (Inr (free Blk_zp (free Blk_zlibOut w1))))))"

definition EndCompressor ::
  "('c, 'd) build \<Rightarrow> ('ah, 'c) CompressorState \<Rightarrow> 'ah world
     \<Rightarrow> ('ah, 'ah world) result option" where
  "EndCompressor env cs w =
     (if HAVE_LIBZ env \<and> comprAlg cs = COMPR_ALG_LIBZ
      then
        (case EndCompressorZlib env cs w of
           None \<Rightarrow> None
         | Some (Inl e) \<Rightarrow> Some (Inl e)
         | Some (Inr w1) \<Rightarrow> Some (Inr (free Blk_cs w1)))
      else Some (Inr (free Blk_cs w)))"

subsection \<open>\<^verbatim>\<open>ReadDataFromArchiveNone\<close>\<close>

text \<open>
  \<^verbatim>\<open>readF(AH, &buf, &buflen)\<close> gets the handle and the buffer's size and returns the
  chunk it stored, whose length is its return value, and the size of the buffer it may
  have enlarged.  \<^verbatim>\<open>ahwrite(buf, 1, n, AH)\<close> gets the \<open>n\<close> bytes and the handle.
\<close>

partial_function (option) ReadDataFromArchiveNone_loop ::
  "('ah \<Rightarrow> nat \<Rightarrow> 'ah \<times> byte list \<times> nat) \<Rightarrow> (byte list \<Rightarrow> 'ah \<Rightarrow> 'ah) \<Rightarrow> nat \<Rightarrow> 'ah world
     \<Rightarrow> 'ah world option" where
  "ReadDataFromArchiveNone_loop readF ahwrite buflen w =
     (case readF (AH w) buflen of
        (ah, chunk, buflen1) \<Rightarrow>
          if length chunk \<noteq> 0
          then ReadDataFromArchiveNone_loop readF ahwrite buflen1 (w\<lparr>AH := ahwrite chunk ah\<rparr>)
          else Some (w\<lparr>AH := ah\<rparr>))"

declare ReadDataFromArchiveNone_loop.simps [code]

definition ReadDataFromArchiveNone ::
  "('c, 'd) build \<Rightarrow> ('ah \<Rightarrow> nat \<Rightarrow> 'ah \<times> byte list \<times> nat) \<Rightarrow> (byte list \<Rightarrow> 'ah \<Rightarrow> 'ah)
     \<Rightarrow> 'ah world \<Rightarrow> ('ah, 'ah world) result option" where
  "ReadDataFromArchiveNone env readF ahwrite w =
     (case malloc env Blk_read_buf w of
        None \<Rightarrow> Some (die_horribly OutOfMemory w)
      | Some w1 \<Rightarrow>
          (case ReadDataFromArchiveNone_loop readF ahwrite (ZLIB_OUT_SIZE env) w1 of
             None \<Rightarrow> None
           | Some w2 \<Rightarrow> Some (Inr (free Blk_read_buf w2))))"

subsection \<open>\<^verbatim>\<open>ReadDataFromArchiveZlib\<close>\<close>

text \<open>
  The statements both loops of the function repeat: point the stream at the start of
  \<^verbatim>\<open>out\<close> with \<^verbatim>\<open>ZLIB_OUT_SIZE\<close> bytes free, call \<^verbatim>\<open>inflate\<close>, die unless it answers
  \<^verbatim>\<open>Z_OK\<close> or \<^verbatim>\<open>Z_STREAM_END\<close>, store the zero byte at
  \<^verbatim>\<open>out[ZLIB_OUT_SIZE - zp->avail_out]\<close> and hand that many bytes to \<^verbatim>\<open>ahwrite\<close>.
  \<^verbatim>\<open>out\<close> has \<^verbatim>\<open>ZLIB_OUT_SIZE + 1\<close> bytes; an index outside it is the outcome
  \<open>OutOfBoundsWrite\<close>.
\<close>

definition inflate_and_forward ::
  "('c, 'd) build \<Rightarrow> (byte list \<Rightarrow> 'ah \<Rightarrow> 'ah) \<Rightarrow> 'd z_stream \<Rightarrow> 'ah world
     \<Rightarrow> ('ah, 'd z_stream \<times> zres \<times> 'ah world) result" where
  "inflate_and_forward env ahwrite z w =
     (case inflate env (z\<lparr>next_out := [], avail_out := ZLIB_OUT_SIZE env\<rparr>) of
        (res, z1) \<Rightarrow>
          if res \<noteq> Z_OK \<and> res \<noteq> Z_STREAM_END then die_horribly CodecError w
          else
            (let idx = int (ZLIB_OUT_SIZE env) - int (avail_out z1) in
             if idx < 0 \<or> int (ZLIB_OUT_SIZE env + 1) \<le> idx then Inl (OutOfBoundsWrite, w)
             else Inr (z1, res, w\<lparr>AH := ahwrite (take (nat idx) (next_out z1)) (AH w)\<rparr>)))"

text \<open>The inner loop: \<^verbatim>\<open>while (zp->avail_in > 0)\<close>.\<close>

partial_function (option) ReadDataFromArchiveZlib_inner ::
  "('c, 'd) build \<Rightarrow> (byte list \<Rightarrow> 'ah \<Rightarrow> 'ah) \<Rightarrow> 'd z_stream \<Rightarrow> zres \<Rightarrow> 'ah world
     \<Rightarrow> ('ah, 'd z_stream \<times> zres \<times> 'ah world) result option" where
  "ReadDataFromArchiveZlib_inner env ahwrite z res w =
     (if avail_in z > 0
      then
        (case inflate_and_forward env ahwrite z w of
           Inl e \<Rightarrow> Some (Inl e)
         | Inr (z1, res1, w1) \<Rightarrow> ReadDataFromArchiveZlib_inner env ahwrite z1 res1 w1)
      else Some (Inr (z, res, w)))"

declare ReadDataFromArchiveZlib_inner.simps [code]

text \<open>
  The outer loop: \<^verbatim>\<open>while ((cnt = readF(AH, &buf, &buflen)))\<close>.  The test is on the
  \<^verbatim>\<open>size_t\<close> \<^verbatim>\<open>cnt\<close>; \<^verbatim>\<open>zp->avail_in = cnt\<close> then stores it in a \<^verbatim>\<open>uInt\<close>, so the
  stream is offered the first \<open>uInt cnt\<close> bytes of the chunk.
\<close>

partial_function (option) ReadDataFromArchiveZlib_outer ::
  "('c, 'd) build \<Rightarrow> ('ah \<Rightarrow> nat \<Rightarrow> 'ah \<times> byte list \<times> nat) \<Rightarrow> (byte list \<Rightarrow> 'ah \<Rightarrow> 'ah)
     \<Rightarrow> 'd z_stream \<Rightarrow> zres \<Rightarrow> nat \<Rightarrow> 'ah world
     \<Rightarrow> ('ah, 'd z_stream \<times> zres \<times> 'ah world) result option" where
  "ReadDataFromArchiveZlib_outer env readF ahwrite z res buflen w =
     (case readF (AH w) buflen of
        (ah, chunk, buflen1) \<Rightarrow>
          if length chunk \<noteq> 0
          then
            (case ReadDataFromArchiveZlib_inner env ahwrite
                    (z\<lparr>next_in := take (uInt (length chunk)) chunk\<rparr>) res (w\<lparr>AH := ah\<rparr>) of
               None \<Rightarrow> None
             | Some (Inl e) \<Rightarrow> Some (Inl e)
             | Some (Inr (z1, res1, w1)) \<Rightarrow>
                 ReadDataFromArchiveZlib_outer env readF ahwrite z1 res1 buflen1 w1)
          else Some (Inr (z, res, w\<lparr>AH := ah\<rparr>)))"

declare ReadDataFromArchiveZlib_outer.simps [code]

text \<open>The drain loop: \<^verbatim>\<open>while (res != Z_STREAM_END)\<close>, with no input.\<close>

partial_function (option) ReadDataFromArchiveZlib_drain ::
  "('c, 'd) build \<Rightarrow> (byte list \<Rightarrow> 'ah \<Rightarrow> 'ah) \<Rightarrow> 'd z_stream \<Rightarrow> zres \<Rightarrow> 'ah world
     \<Rightarrow> ('ah, 'd z_stream \<times> zres \<times> 'ah world) result option" where
  "ReadDataFromArchiveZlib_drain env ahwrite z res w =
     (if res \<noteq> Z_STREAM_END
      then
        (case inflate_and_forward env ahwrite z w of
           Inl e \<Rightarrow> Some (Inl e)
         | Inr (z1, res1, w1) \<Rightarrow> ReadDataFromArchiveZlib_drain env ahwrite z1 res1 w1)
      else Some (Inr (z, res, w)))"

declare ReadDataFromArchiveZlib_drain.simps [code]

definition ReadDataFromArchiveZlib ::
  "('c, 'd) build \<Rightarrow> ('ah \<Rightarrow> nat \<Rightarrow> 'ah \<times> byte list \<times> nat) \<Rightarrow> (byte list \<Rightarrow> 'ah \<Rightarrow> 'ah)
     \<Rightarrow> 'ah world \<Rightarrow> ('ah, 'ah world) result option" where
  "ReadDataFromArchiveZlib env readF ahwrite w =
     (case malloc env Blk_read_zp w of
        None \<Rightarrow> Some (die_horribly OutOfMemory w)
      | Some w1 \<Rightarrow>
     (case malloc env Blk_read_buf w1 of
        None \<Rightarrow> Some (die_horribly OutOfMemory w1)
      | Some w2 \<Rightarrow>
     (case malloc env Blk_read_out w2 of
        None \<Rightarrow> Some (die_horribly OutOfMemory w2)
      | Some w3 \<Rightarrow>
     (case zlib_inflateInit env of
        (r, s) \<Rightarrow>
          if r \<noteq> Z_OK then Some (die_horribly CodecInitFailure w3)
          else
     (case ReadDataFromArchiveZlib_outer env readF ahwrite
             \<lparr>next_in = [], next_out = [], avail_out = 0, zstate = s\<rparr> Z_OK
             (ZLIB_IN_SIZE env) w3 of
        None \<Rightarrow> None
      | Some (Inl e) \<Rightarrow> Some (Inl e)
      | Some (Inr (z1, res1, w4)) \<Rightarrow>
     (case ReadDataFromArchiveZlib_drain env ahwrite (z1\<lparr>next_in := []\<rparr>) res1 w4 of
        None \<Rightarrow> None
      | Some (Inl e) \<Rightarrow> Some (Inl e)
      | Some (Inr (z2, res2, w5)) \<Rightarrow>
          if zlib_inflateEnd env (zstate z2) \<noteq> Z_OK
          then Some (die_horribly CodecCloseFailure w5)
          else Some (Inr (free Blk_read_zp (free Blk_read_out (free Blk_read_buf w5))))))))))"

subsection \<open>\<^verbatim>\<open>ReadDataFromArchive\<close>\<close>

text \<open>The two \<^verbatim>\<open>if\<close> statements follow one another, as in the file.\<close>

definition ReadDataFromArchive ::
  "('c, 'd) build \<Rightarrow> int \<Rightarrow> ('ah \<Rightarrow> nat \<Rightarrow> 'ah \<times> byte list \<times> nat) \<Rightarrow> (byte list \<Rightarrow> 'ah \<Rightarrow> 'ah)
     \<Rightarrow> 'ah world \<Rightarrow> ('ah, 'ah world) result option" where
  "ReadDataFromArchive env compression readF ahwrite w =
     (case ParseCompressionOption compression w of
        Inl e \<Rightarrow> Some (Inl e)
      | Inr (alg, level) \<Rightarrow>
          (case (if alg = COMPR_ALG_NONE then ReadDataFromArchiveNone env readF ahwrite w
                 else Some (Inr w)) of
             None \<Rightarrow> None
           | Some (Inl e) \<Rightarrow> Some (Inl e)
           | Some (Inr w1) \<Rightarrow>
               if alg = COMPR_ALG_LIBZ
               then (if HAVE_LIBZ env then ReadDataFromArchiveZlib env readF ahwrite w1
                     else Some (die_horribly UnsupportedAlgorithm w1))
               else Some (Inr w1)))"

section \<open>Sessions and observers\<close>

text \<open>
  A write session is what the header comment of the file prescribes:
  \<^verbatim>\<open>AllocateCompressor\<close>, then \<^verbatim>\<open>WriteDataToArchive\<close> once for each piece of data,
  then \<^verbatim>\<open>EndCompressor\<close>.
\<close>

fun WriteAll ::
  "('c, 'd) build \<Rightarrow> ('ah, 'c) CompressorState \<Rightarrow> byte list list \<Rightarrow> 'ah world
     \<Rightarrow> ('ah, ('ah, 'c) CompressorState \<times> 'ah world) result option" where
  "WriteAll env cs [] w = Some (Inr (cs, w))"
| "WriteAll env cs (d # ds) w =
     (case WriteDataToArchive env cs d w of
        None \<Rightarrow> None
      | Some (Inl e) \<Rightarrow> Some (Inl e)
      | Some (Inr (n, cs1, w1)) \<Rightarrow> WriteAll env cs1 ds w1)"

definition WriteSession ::
  "('c, 'd) build \<Rightarrow> int \<Rightarrow> ('ah \<Rightarrow> byte list \<Rightarrow> 'ah \<times> nat) \<Rightarrow> byte list list \<Rightarrow> 'ah world
     \<Rightarrow> ('ah, 'ah world) result option" where
  "WriteSession env compression wF ds w =
     (case AllocateCompressor env compression wF w of
        Inl e \<Rightarrow> Some (Inl e)
      | Inr (cs, w1) \<Rightarrow>
          (case WriteAll env cs ds w1 of
             None \<Rightarrow> None
           | Some (Inl e) \<Rightarrow> Some (Inl e)
           | Some (Inr (cs2, w2)) \<Rightarrow> EndCompressor env cs2 w2))"

text \<open>The world in which a call ended, whether it returned or died.\<close>

definition final_world :: "('ah, 'ah world) result \<Rightarrow> 'ah world" where
  "final_world r = (case r of Inl (e, w) \<Rightarrow> w | Inr w \<Rightarrow> w)"

text \<open>
  Callbacks that keep a log: the handle carries the list of the calls made so far, and
  each callback appends its own call before it answers as the callback it wraps.
\<close>

datatype io_event = WriteF "byte list" | ReadF "byte list" | Ahwrite "byte list"

definition traced_writeF ::
  "('ah \<Rightarrow> byte list \<Rightarrow> 'ah \<times> nat)
     \<Rightarrow> 'ah \<times> io_event list \<Rightarrow> byte list \<Rightarrow> ('ah \<times> io_event list) \<times> nat" where
  "traced_writeF wF h buf =
     (case wF (fst h) buf of (ah, n) \<Rightarrow> ((ah, snd h @ [WriteF buf]), n))"

definition traced_readF ::
  "('ah \<Rightarrow> nat \<Rightarrow> 'ah \<times> byte list \<times> nat)
     \<Rightarrow> 'ah \<times> io_event list \<Rightarrow> nat \<Rightarrow> ('ah \<times> io_event list) \<times> byte list \<times> nat" where
  "traced_readF rF h buflen =
     (case rF (fst h) buflen of
        (ah, chunk, buflen1) \<Rightarrow> ((ah, snd h @ [ReadF chunk]), chunk, buflen1))"

definition traced_ahwrite ::
  "(byte list \<Rightarrow> 'ah \<Rightarrow> 'ah) \<Rightarrow> byte list \<Rightarrow> 'ah \<times> io_event list \<Rightarrow> 'ah \<times> io_event list" where
  "traced_ahwrite aw buf h = (aw buf (fst h), snd h @ [Ahwrite buf])"

text \<open>
  The callbacks of the round trip.  \<open>collect\<close> is a \<^verbatim>\<open>writeF\<close> that appends each
  chunk to the handle and reports it written in full.  \<open>feed\<close> is a \<^verbatim>\<open>readF\<close> over a
  handle holding the chunks still to come and the bytes delivered so far: it hands out
  the next chunk, and answers with length zero once none is left.  \<open>deliver\<close> is an
  \<^verbatim>\<open>ahwrite\<close> that appends to the delivered bytes.
\<close>

definition collect :: "byte list list \<Rightarrow> byte list \<Rightarrow> byte list list \<times> nat" where
  "collect chunks buf = (chunks @ [buf], length buf)"

definition feed ::
  "byte list list \<times> byte list \<Rightarrow> nat \<Rightarrow> (byte list list \<times> byte list) \<times> byte list \<times> nat" where
  "feed h buflen =
     (case fst h of
        [] \<Rightarrow> (h, [], buflen)
      | c # cs \<Rightarrow> ((cs, snd h), c, max buflen (length c)))"

definition deliver ::
  "byte list \<Rightarrow> byte list list \<times> byte list \<Rightarrow> byte list list \<times> byte list" where
  "deliver bs h = (fst h, snd h @ bs)"




section \<open>Invariants of the write path\<close>

text \<open>
  The staging buffer is accounted for when the bytes stored in it and the space the
  stream has left add up to its size.
\<close>

definition accounted :: "nat \<Rightarrow> 'z z_stream \<Rightarrow> bool" where
  "accounted cap z \<longleftrightarrow> length (next_out z) + avail_out z = cap"

definition cs_accounted :: "('ah, 'c) CompressorState \<Rightarrow> bool" where
  "cs_accounted cs \<longleftrightarrow> (\<exists>z. zp cs = Some z \<and> accounted (zlibOutSize cs) z)"

text \<open>The log of the callbacks holds no call of \<^verbatim>\<open>writeF\<close> with no bytes.\<close>

definition no_empty_write :: "('ah \<times> io_event list) world \<Rightarrow> bool" where
  "no_empty_write w \<longleftrightarrow> WriteF [] \<notin> set (snd (AH w))"

section \<open>What is assumed of the codec\<close>

text \<open>
  Forward progress of the compressor, as \<^verbatim>\<open>zlib.h\<close> promises it: a call that has
  output space, and input or a request to finish, and that does not end the stream,
  takes input or comes nearer to having emitted all it holds.  \<open>\<mu>\<close> measures what the
  compressor still holds.
\<close>

definition deflate_progress :: "('c, 'd) build \<Rightarrow> ('c \<Rightarrow> nat) \<Rightarrow> bool" where
  "deflate_progress env \<mu> \<longleftrightarrow>
     (\<forall>s inp ao fl r s1 n out.
        zlib_deflate env s inp ao fl = (r, s1, n, out) \<and> 0 < ao
          \<and> (inp \<noteq> [] \<or> fl = Z_FINISH) \<and> r \<noteq> Z_STREAM_END
        \<longrightarrow> 0 < min n (length inp) \<or> \<mu> s1 < \<mu> s)"

text \<open>\<^verbatim>\<open>Z_STREAM_END\<close> answers a call with \<^verbatim>\<open>Z_FINISH\<close> only.\<close>

definition end_only_on_finish :: "('c, 'd) build \<Rightarrow> bool" where
  "end_only_on_finish env \<longleftrightarrow>
     (\<forall>s inp ao fl r s1 n out.
        zlib_deflate env s inp ao fl = (r, s1, n, out) \<and> r = Z_STREAM_END
        \<longrightarrow> fl = Z_FINISH)"


text \<open>
  A lossless codec.  \<open>valid C S\<close> says that \<open>C\<close> is a complete compressed stream of
  \<open>S\<close>.  \<open>Cinv fin s S C\<close> says that the compressor state \<open>s\<close> is live, has taken the
  input \<open>S\<close> and emitted \<open>C\<close>, and has been asked to finish iff \<open>fin\<close>;
  \<open>Dinv d C S\<close> says that the decompressor state \<open>d\<close> is live, has taken \<open>C\<close> and
  emitted \<open>S\<close>.  \<open>\<mu>\<close> and \<open>\<nu>\<close> measure what the two still hold.
  \<^item> Initialisation succeeds for the levels 1 to 9.
  \<^item> A compressor call without flush, on input and output space, answers \<^verbatim>\<open>Z_OK\<close> or
    \<^verbatim>\<open>Z_BUF_ERROR\<close>, stays within the two buffers, and makes progress.
  \<^item> A compressor call with \<^verbatim>\<open>Z_FINISH\<close>, no input and output space either ends the
    stream, and then all that was emitted is a valid stream of all that was taken and
    \<^verbatim>\<open>deflateEnd\<close> succeeds, or answers \<^verbatim>\<open>Z_OK\<close> or \<^verbatim>\<open>Z_BUF_ERROR\<close> and has
    emitted some of what it held.
  \<^item> A decompressor call inside a valid stream, on output space, and on input unless the
    whole stream has been taken, either answers \<^verbatim>\<open>Z_OK\<close> and makes progress, or ends
    the stream, and then it has taken the whole stream and emitted the whole content, and
    \<^verbatim>\<open>inflateEnd\<close> succeeds.
\<close>

definition lossless_codec ::
  "('c, 'd) build \<Rightarrow> (byte list \<Rightarrow> byte list \<Rightarrow> bool)
     \<Rightarrow> (bool \<Rightarrow> 'c \<Rightarrow> byte list \<Rightarrow> byte list \<Rightarrow> bool) \<Rightarrow> ('c \<Rightarrow> nat)
     \<Rightarrow> ('d \<Rightarrow> byte list \<Rightarrow> byte list \<Rightarrow> bool) \<Rightarrow> ('d \<Rightarrow> nat) \<Rightarrow> bool" where
  "lossless_codec env valid Cinv \<mu> Dinv \<nu> \<longleftrightarrow>
     (\<forall>level. 1 \<le> level \<and> level \<le> 9 \<longrightarrow>
        fst (zlib_deflateInit env level) = Z_OK
          \<and> Cinv False (snd (zlib_deflateInit env level)) [] [])
   \<and> (\<forall>s S C inp ao r s1 n out.
        Cinv False s S C \<and> inp \<noteq> [] \<and> 0 < ao
          \<and> zlib_deflate env s inp ao Z_NO_FLUSH = (r, s1, n, out)
        \<longrightarrow> (r = Z_OK \<or> r = Z_BUF_ERROR) \<and> n \<le> length inp \<and> length out \<le> ao
            \<and> Cinv False s1 (S @ take n inp) (C @ out) \<and> (0 < n \<or> \<mu> s1 < \<mu> s))
   \<and> (\<forall>fin s S C ao r s1 n out.
        Cinv fin s S C \<and> 0 < ao \<and> zlib_deflate env s [] ao Z_FINISH = (r, s1, n, out)
        \<longrightarrow> length out \<le> ao
            \<and> (r = Z_STREAM_END \<and> valid (C @ out) S \<and> zlib_deflateEnd env s1 = Z_OK
               \<or> (r = Z_OK \<or> r = Z_BUF_ERROR) \<and> Cinv True s1 S (C @ out) \<and> \<mu> s1 < \<mu> s))
   \<and> fst (zlib_inflateInit env) = Z_OK \<and> Dinv (snd (zlib_inflateInit env)) [] []
   \<and> (\<forall>C S d Cc Sc inp ao r d1 n out.
        valid C S \<and> Dinv d Cc Sc \<and> prefix (Cc @ inp) C \<and> 0 < ao \<and> (inp \<noteq> [] \<or> Cc = C)
          \<and> zlib_inflate env d inp ao = (r, d1, n, out)
        \<longrightarrow> n \<le> length inp \<and> length out \<le> ao
            \<and> (r = Z_OK \<and> Dinv d1 (Cc @ take n inp) (Sc @ out) \<and> (0 < n \<or> \<nu> d1 < \<nu> d)
               \<or> r = Z_STREAM_END \<and> n = length inp \<and> Cc @ inp = C \<and> Sc @ out = S
                   \<and> zlib_inflateEnd env d1 = Z_OK))"

section \<open>Invariants of a round trip\<close>

text \<open>
  For a write session whose callback is \<open>collect\<close>: the codec's invariant relates the
  bytes accepted so far, \<open>S\<close>, to the chunks handed to the callback followed by the bytes
  staged in the output buffer; the buffer has room left; and no chunk is empty or longer
  than the buffer.
\<close>

definition write_state ::
  "(bool \<Rightarrow> 'c \<Rightarrow> byte list \<Rightarrow> byte list \<Rightarrow> bool) \<Rightarrow> bool \<Rightarrow> nat \<Rightarrow> 'c z_stream
     \<Rightarrow> byte list list world \<Rightarrow> byte list \<Rightarrow> bool" where
  "write_state Cinv fin cap z w S \<longleftrightarrow>
     Cinv fin (zstate z) S (concat (AH w) @ next_out z)
     \<and> accounted cap z \<and> 0 < avail_out z \<and> [] \<notin> set (AH w)
     \<and> (\<forall>c\<in>set (AH w). length c \<le> cap)"

text \<open>A zlib context whose stream is in such a state and has not been asked to finish.\<close>

definition deflate_context ::
  "(bool \<Rightarrow> 'c \<Rightarrow> byte list \<Rightarrow> byte list \<Rightarrow> bool)
     \<Rightarrow> (byte list list, 'c) CompressorState \<Rightarrow> byte list list world \<Rightarrow> byte list \<Rightarrow> bool" where
  "deflate_context Cinv cs w S \<longleftrightarrow>
     comprAlg cs = COMPR_ALG_LIBZ \<and> writeF cs = collect
     \<and> (\<exists>z. zp cs = Some z \<and> write_state Cinv False (zlibOutSize cs) z w S)"

text \<open>
  For \<^verbatim>\<open>ReadDataFromArchiveZlib\<close> reading the compressed stream \<open>C\<close> of the bytes \<open>S\<close> with
  the callbacks \<open>feed\<close> and \<open>deliver\<close>: \<open>C\<close> is the input consumed so far, \<open>Cc\<close>, then the
  input still on offer, then the chunks not yet read, none of them empty; before the
  end of the stream the decompressor's invariant relates \<open>Cc\<close> to the bytes delivered,
  and at the end of the stream all of \<open>C\<close> has been consumed and all of \<open>S\<close> delivered.
\<close>

definition read_state ::
  "('c, 'd) build \<Rightarrow> ('d \<Rightarrow> byte list \<Rightarrow> byte list \<Rightarrow> bool) \<Rightarrow> byte list \<Rightarrow> byte list
     \<Rightarrow> 'd z_stream \<Rightarrow> zres \<Rightarrow> (byte list list \<times> byte list) world \<Rightarrow> bool" where
  "read_state env Dinv C S z res w \<longleftrightarrow>
     [] \<notin> set (fst (AH w))
     \<and> (\<exists>Cc. Cc @ next_in z @ concat (fst (AH w)) = C
           \<and> (if res = Z_STREAM_END
               then Cc = C \<and> snd (AH w) = S \<and> zlib_inflateEnd env (zstate z) = Z_OK
               else Dinv (zstate z) Cc (snd (AH w))))"

section \<open>A small codec to run the functions on\<close>

text \<open>
  A codec simple enough to compute with: a data byte \<open>b\<close> is sent as the two bytes
  \<open>1, b\<close>, and the stream ends with the byte \<open>0\<close>.  The compressor state is the output
  not yet emitted and whether the end byte has been added to it; the compressor takes all
  the input on offer and emits as much as there is room for.
\<close>

definition toy_encode :: "byte list \<Rightarrow> byte list" where
  "toy_encode S = concat (map (\<lambda>b. [1, b]) S)"

definition toy_deflateInit :: "int \<Rightarrow> zres \<times> (byte list \<times> bool)" where
  "toy_deflateInit level = (Z_OK, ([], False))"

definition toy_deflate ::
  "byte list \<times> bool \<Rightarrow> byte list \<Rightarrow> nat \<Rightarrow> zflush
     \<Rightarrow> zres \<times> (byte list \<times> bool) \<times> nat \<times> byte list" where
  "toy_deflate s inp ao fl =
     (let q = fst s @ toy_encode inp @ (if fl = Z_FINISH \<and> \<not> snd s then [0] else [])
      in (if fl = Z_FINISH \<and> drop ao q = [] then Z_STREAM_END
          else if inp = [] \<and> take ao q = [] then Z_BUF_ERROR
          else Z_OK,
          (drop ao q, snd s \<or> fl = Z_FINISH), length inp, take ao q))"

definition toy_deflateEnd :: "byte list \<times> bool \<Rightarrow> zres" where
  "toy_deflateEnd s = Z_OK"

text \<open>
  The decompressor state is where it stands in the stream and the output not yet
  emitted; the decompressor takes all the input on offer as well.
\<close>

datatype toy_mode = Tag | Data | Done | Bad

fun toy_feed :: "toy_mode \<times> byte list \<Rightarrow> byte \<Rightarrow> toy_mode \<times> byte list" where
  "toy_feed (Tag, q) b = (if b = 1 then (Data, q) else if b = 0 then (Done, q) else (Bad, q))"
| "toy_feed (Data, q) b = (Tag, q @ [b])"
| "toy_feed (Done, q) b = (Bad, q)"
| "toy_feed (Bad, q) b = (Bad, q)"

definition toy_inflateInit :: "zres \<times> (toy_mode \<times> byte list)" where
  "toy_inflateInit = (Z_OK, (Tag, []))"

definition toy_inflate ::
  "toy_mode \<times> byte list \<Rightarrow> byte list \<Rightarrow> nat
     \<Rightarrow> zres \<times> (toy_mode \<times> byte list) \<times> nat \<times> byte list" where
  "toy_inflate d inp ao =
     (let d1 = foldl toy_feed d inp
      in (if fst d1 = Bad then Z_DATA_ERROR
          else if fst d1 = Done \<and> drop ao (snd d1) = [] then Z_STREAM_END
          else if inp = [] \<and> take ao (snd d1) = [] then Z_BUF_ERROR
          else Z_OK,
          (fst d1, drop ao (snd d1)), length inp, take ao (snd d1)))"

definition toy_inflateEnd :: "toy_mode \<times> byte list \<Rightarrow> zres" where
  "toy_inflateEnd d = Z_OK"

text \<open>
  The build with this codec, with or without \<^verbatim>\<open>HAVE_LIBZ\<close>, with the given size of the
  output buffer, and with every allocation succeeding.
\<close>

definition toy_build ::
  "bool \<Rightarrow> nat \<Rightarrow> (byte list \<times> bool, toy_mode \<times> byte list) build" where
  "toy_build have_libz out_size =
     \<lparr>HAVE_LIBZ = have_libz,
      ZLIB_OUT_SIZE = out_size,
      ZLIB_IN_SIZE = out_size,
      malloc_ok = (\<lambda>b. True),
      zlib_deflateInit = toy_deflateInit,
      zlib_deflate = toy_deflate,
      zlib_deflateEnd = toy_deflateEnd,
      zlib_inflateInit = toy_inflateInit,
      zlib_inflate = toy_inflate,
      zlib_inflateEnd = toy_inflateEnd\<rparr>"

text \<open>
  The context that \<^verbatim>\<open>AllocateCompressor\<close> returns in the build \<open>toy_build True 3\<close> for
  a zlib hint and the callback \<open>collect\<close>, and the world it returns it in when nothing
  has been written yet.
\<close>

definition toy_context :: "(byte list list, byte list \<times> bool) CompressorState" where
  "toy_context =
     \<lparr>writeF = collect, comprAlg = COMPR_ALG_LIBZ,
      zp = Some \<lparr>next_in = [], next_out = [], avail_out = 3, zstate = ([], False)\<rparr>,
      zlibOutSize = 3\<rparr>"

definition toy_world :: "byte list list world" where
  "toy_world = \<lparr>AH = [], heap = {Blk_cs, Blk_zp, Blk_zlibOut}\<rparr>"

text \<open>What the contract above speaks of, for this codec.\<close>

definition toy_valid :: "byte list \<Rightarrow> byte list \<Rightarrow> bool" where
  "toy_valid C S \<longleftrightarrow> C = toy_encode S @ [0]"

definition toy_Cinv :: "bool \<Rightarrow> byte list \<times> bool \<Rightarrow> byte list \<Rightarrow> byte list \<Rightarrow> bool" where
  "toy_Cinv fin s S C \<longleftrightarrow>
     snd s = fin \<and> C @ fst s = toy_encode S @ (if fin then [0] else [])
       \<and> (fin \<longrightarrow> fst s \<noteq> [])"

definition toy_mu :: "byte list \<times> bool \<Rightarrow> nat" where
  "toy_mu s = length (fst s) + (if snd s then 0 else 1)"

definition toy_Dinv :: "toy_mode \<times> byte list \<Rightarrow> byte list \<Rightarrow> byte list \<Rightarrow> bool" where
  "toy_Dinv d C S \<longleftrightarrow>
     foldl toy_feed (Tag, []) C = (fst d, S @ snd d) \<and> fst d \<noteq> Bad
       \<and> \<not> (fst d = Done \<and> snd d = [])"

definition toy_nu :: "toy_mode \<times> byte list \<Rightarrow> nat" where
  "toy_nu d = length (snd d)"

section \<open>The cut to 32 bits\<close>

lemma uInt_mod: "uInt n = n mod 2 ^ 32"
  by (simp add: uInt_def unat_of_nat)

lemma uInt_small: "n < 2 ^ 32 \<Longrightarrow> uInt n = n"
  by (simp add: uInt_mod)

lemma uInt_le: "uInt n \<le> n"
  by (simp add: uInt_mod)

lemma take_uInt_small: "length buf < 2 ^ 32 \<Longrightarrow> take (uInt (length buf)) buf = buf"
  by (simp add: uInt_small)

section \<open>Invariant rules for the loops\<close>

text \<open>
  One rule for each loop: a property that holds when the loop is entered and that each
  pass keeps holds when the loop is left, and whatever holds at each way out holds of
  the result.  The rules say nothing about whether the loop is left.
\<close>

lemma DeflateCompressorZlib_loop_rule:
  assumes run: "DeflateCompressorZlib_loop env cs flush z res w = Some r"
    and inv: "I z w"
    and step: "\<And>z w z1 res1 w1. I z w \<Longrightarrow> avail_in z \<noteq> 0 \<or> flush \<Longrightarrow>
                 DeflateCompressorZlib_body env cs flush z w = Inr (z1, res1, w1) \<Longrightarrow>
                 res1 \<noteq> Z_STREAM_END \<Longrightarrow> I z1 w1"
    and dies: "\<And>z w e. I z w \<Longrightarrow> avail_in z \<noteq> 0 \<or> flush \<Longrightarrow>
                 DeflateCompressorZlib_body env cs flush z w = Inl e \<Longrightarrow> Q (Inl e)"
    and break: "\<And>z w z1 w1. I z w \<Longrightarrow> avail_in z \<noteq> 0 \<or> flush \<Longrightarrow>
                 DeflateCompressorZlib_body env cs flush z w = Inr (z1, Z_STREAM_END, w1) \<Longrightarrow>
                 Q (Inr (z1, Z_STREAM_END, w1))"
    and exits: "\<And>z res w. I z w \<Longrightarrow> avail_in z = 0 \<Longrightarrow> \<not> flush \<Longrightarrow> Q (Inr (z, res, w))"
  shows "Q r"
proof -
  have "env = env \<and> cs = cs \<and> flush = flush \<longrightarrow> I z w \<longrightarrow> Q r"
    using run
  proof (rule DeflateCompressorZlib_loop.raw_induct
      [rotated, where P = "\<lambda>env' cs' flush' z res w r.
          env' = env \<and> cs' = cs \<and> flush' = flush \<longrightarrow> I z w \<longrightarrow> Q r"], intro impI)
    fix loop env' cs' flush' z res w r
    assume IH: "\<And>env' cs' flush' z res w r. loop env' cs' flush' z res w = Some r \<Longrightarrow>
         env' = env \<and> cs' = cs \<and> flush' = flush \<longrightarrow> I z w \<longrightarrow> Q r"
      and eq: "(if avail_in z \<noteq> 0 \<or> flush'
        then case DeflateCompressorZlib_body env' cs' flush' z w of
             Inl e \<Rightarrow> Some (Inl e)
           | Inr (z1, res1, w1) \<Rightarrow>
               if res1 = Z_STREAM_END then Some (Inr (z1, res1, w1))
               else loop env' cs' flush' z1 res1 w1
        else Some (Inr (z, res, w))) = Some r"
      and same: "env' = env \<and> cs' = cs \<and> flush' = flush" and i: "I z w"
    show "Q r"
    proof (cases "avail_in z \<noteq> 0 \<or> flush")
      case False
      with eq same have "r = Inr (z, res, w)" by auto
      with i exits False show ?thesis by simp
    next
      case True
      show ?thesis
      proof (cases "DeflateCompressorZlib_body env cs flush z w")
        case (Inl e)
        with eq same True have "r = Inl e" by auto
        with dies[OF i True Inl] show ?thesis by simp
      next
        case (Inr b)
        obtain z1 res1 w1 where b: "b = (z1, res1, w1)" by (cases b) auto
        show ?thesis
        proof (cases "res1 = Z_STREAM_END")
          case True
          with eq same \<open>avail_in z \<noteq> 0 \<or> flush\<close> Inr b have "r = Inr (z1, res1, w1)" by auto
          with break[OF i \<open>avail_in z \<noteq> 0 \<or> flush\<close>, of z1 w1] Inr b True show ?thesis by simp
        next
          case False
          have i1: "I z1 w1" using step[OF i True _ False] Inr b by simp
          from False eq same \<open>avail_in z \<noteq> 0 \<or> flush\<close> Inr b
          have "loop env cs flush z1 res1 w1 = Some r" by auto
          from IH[OF this] i1 show ?thesis by simp
        qed
      qed
    qed
  qed
  with inv show ?thesis by simp
qed

lemma ReadDataFromArchiveZlib_inner_rule:
  assumes run: "ReadDataFromArchiveZlib_inner env aw z res w = Some r"
    and inv: "I z res w"
    and step: "\<And>z res w z1 res1 w1. I z res w \<Longrightarrow> avail_in z > 0 \<Longrightarrow>
                 inflate_and_forward env aw z w = Inr (z1, res1, w1) \<Longrightarrow> I z1 res1 w1"
    and dies: "\<And>z res w e. I z res w \<Longrightarrow> avail_in z > 0 \<Longrightarrow>
                 inflate_and_forward env aw z w = Inl e \<Longrightarrow> Q (Inl e)"
    and exits: "\<And>z res w. I z res w \<Longrightarrow> avail_in z = 0 \<Longrightarrow> Q (Inr (z, res, w))"
  shows "Q r"
proof -
  have "env = env \<and> aw = aw \<longrightarrow> I z res w \<longrightarrow> Q r"
    using run
  proof (rule ReadDataFromArchiveZlib_inner.raw_induct
      [rotated, where P = "\<lambda>env' aw' z res w r.
          env' = env \<and> aw' = aw \<longrightarrow> I z res w \<longrightarrow> Q r"], intro impI)
    fix loop env' aw' z res w r
    assume IH: "\<And>env' aw' z res w r. loop env' aw' z res w = Some r \<Longrightarrow>
         env' = env \<and> aw' = aw \<longrightarrow> I z res w \<longrightarrow> Q r"
      and eq: "(if avail_in z > 0
        then case inflate_and_forward env' aw' z w of
             Inl e \<Rightarrow> Some (Inl e)
           | Inr (z1, res1, w1) \<Rightarrow> loop env' aw' z1 res1 w1
        else Some (Inr (z, res, w))) = Some r"
      and same: "env' = env \<and> aw' = aw" and i: "I z res w"
    show "Q r"
    proof (cases "avail_in z > 0")
      case False
      with eq have "r = Inr (z, res, w)" by auto
      with i exits False show ?thesis by simp
    next
      case True
      show ?thesis
      proof (cases "inflate_and_forward env aw z w")
        case (Inl e)
        with eq same True have "r = Inl e" by auto
        with dies[OF i True Inl] show ?thesis by simp
      next
        case (Inr b)
        obtain z1 res1 w1 where b: "b = (z1, res1, w1)" by (cases b) auto
        have i1: "I z1 res1 w1" using step[OF i True] Inr b by simp
        from eq same True Inr b have "loop env aw z1 res1 w1 = Some r" by auto
        from IH[OF this] i1 show ?thesis by simp
      qed
    qed
  qed
  with inv show ?thesis by simp
qed

lemma ReadDataFromArchiveZlib_drain_rule:
  assumes run: "ReadDataFromArchiveZlib_drain env aw z res w = Some r"
    and inv: "I z res w"
    and step: "\<And>z res w z1 res1 w1. I z res w \<Longrightarrow> res \<noteq> Z_STREAM_END \<Longrightarrow>
                 inflate_and_forward env aw z w = Inr (z1, res1, w1) \<Longrightarrow> I z1 res1 w1"
    and dies: "\<And>z res w e. I z res w \<Longrightarrow> res \<noteq> Z_STREAM_END \<Longrightarrow>
                 inflate_and_forward env aw z w = Inl e \<Longrightarrow> Q (Inl e)"
    and exits: "\<And>z w. I z Z_STREAM_END w \<Longrightarrow> Q (Inr (z, Z_STREAM_END, w))"
  shows "Q r"
proof -
  have "env = env \<and> aw = aw \<longrightarrow> I z res w \<longrightarrow> Q r"
    using run
  proof (rule ReadDataFromArchiveZlib_drain.raw_induct
      [rotated, where P = "\<lambda>env' aw' z res w r.
          env' = env \<and> aw' = aw \<longrightarrow> I z res w \<longrightarrow> Q r"], intro impI)
    fix loop env' aw' z res w r
    assume IH: "\<And>env' aw' z res w r. loop env' aw' z res w = Some r \<Longrightarrow>
         env' = env \<and> aw' = aw \<longrightarrow> I z res w \<longrightarrow> Q r"
      and eq: "(if res \<noteq> Z_STREAM_END
        then case inflate_and_forward env' aw' z w of
             Inl e \<Rightarrow> Some (Inl e)
           | Inr (z1, res1, w1) \<Rightarrow> loop env' aw' z1 res1 w1
        else Some (Inr (z, res, w))) = Some r"
      and same: "env' = env \<and> aw' = aw" and i: "I z res w"
    show "Q r"
    proof (cases "res \<noteq> Z_STREAM_END")
      case False
      with eq have "r = Inr (z, Z_STREAM_END, w)" "res = Z_STREAM_END" by auto
      with i exits show ?thesis by simp
    next
      case True
      show ?thesis
      proof (cases "inflate_and_forward env aw z w")
        case (Inl e)
        with eq same True have "r = Inl e" by auto
        with dies[OF i True Inl] show ?thesis by simp
      next
        case (Inr b)
        obtain z1 res1 w1 where b: "b = (z1, res1, w1)" by (cases b) auto
        have i1: "I z1 res1 w1" using step[OF i True] Inr b by simp
        from eq same True Inr b have "loop env aw z1 res1 w1 = Some r" by auto
        from IH[OF this] i1 show ?thesis by simp
      qed
    qed
  qed
  with inv show ?thesis by simp
qed

lemma ReadDataFromArchiveZlib_outer_rule:
  assumes run: "ReadDataFromArchiveZlib_outer env rF aw z res buflen w = Some r"
    and inv: "I z res w"
    and step: "\<And>z res w buflen ah chunk buflen1 z1 res1 w1. I z res w \<Longrightarrow>
                 rF (AH w) buflen = (ah, chunk, buflen1) \<Longrightarrow> chunk \<noteq> [] \<Longrightarrow>
                 ReadDataFromArchiveZlib_inner env aw (z\<lparr>next_in := take (uInt (length chunk)) chunk\<rparr>) res (w\<lparr>AH := ah\<rparr>)
                   = Some (Inr (z1, res1, w1)) \<Longrightarrow> I z1 res1 w1"
    and dies: "\<And>z res w buflen ah chunk buflen1 e. I z res w \<Longrightarrow>
                 rF (AH w) buflen = (ah, chunk, buflen1) \<Longrightarrow> chunk \<noteq> [] \<Longrightarrow>
                 ReadDataFromArchiveZlib_inner env aw (z\<lparr>next_in := take (uInt (length chunk)) chunk\<rparr>) res (w\<lparr>AH := ah\<rparr>)
                   = Some (Inl e) \<Longrightarrow> Q (Inl e)"
    and exits: "\<And>z res w buflen ah buflen1. I z res w \<Longrightarrow>
                 rF (AH w) buflen = (ah, [], buflen1) \<Longrightarrow> Q (Inr (z, res, w\<lparr>AH := ah\<rparr>))"
  shows "Q r"
proof -
  have "env = env \<and> rF = rF \<and> aw = aw \<longrightarrow> I z res w \<longrightarrow> Q r"
    using run
  proof (rule ReadDataFromArchiveZlib_outer.raw_induct
      [rotated, where P = "\<lambda>env' rF' aw' z res buflen w r.
          env' = env \<and> rF' = rF \<and> aw' = aw \<longrightarrow> I z res w \<longrightarrow> Q r"], intro impI)
    fix loop env' rF' aw' z res buflen w r
    assume IH: "\<And>env' rF' aw' z res buflen w r. loop env' rF' aw' z res buflen w = Some r \<Longrightarrow>
         env' = env \<and> rF' = rF \<and> aw' = aw \<longrightarrow> I z res w \<longrightarrow> Q r"
      and eq: "(case rF' (AH w) buflen of
        (ah, chunk, buflen1) \<Rightarrow>
          if length chunk \<noteq> 0
          then case ReadDataFromArchiveZlib_inner env' aw' (z\<lparr>next_in := take (uInt (length chunk)) chunk\<rparr>) res
                    (w\<lparr>AH := ah\<rparr>) of
               None \<Rightarrow> None
             | Some (Inl e) \<Rightarrow> Some (Inl e)
             | Some (Inr (z1, res1, w1)) \<Rightarrow> loop env' rF' aw' z1 res1 buflen1 w1
          else Some (Inr (z, res, w\<lparr>AH := ah\<rparr>))) = Some r"
      and same: "env' = env \<and> rF' = rF \<and> aw' = aw" and i: "I z res w"
    obtain ah chunk buflen1 where rd: "rF (AH w) buflen = (ah, chunk, buflen1)"
      by (cases "rF (AH w) buflen") auto
    show "Q r"
    proof (cases "chunk = []")
      case True
      with eq same rd have "r = Inr (z, res, w\<lparr>AH := ah\<rparr>)" by auto
      with exits[OF i] rd True show ?thesis by simp
    next
      case False
      show ?thesis
      proof (cases "ReadDataFromArchiveZlib_inner env aw (z\<lparr>next_in := take (uInt (length chunk)) chunk\<rparr>) res (w\<lparr>AH := ah\<rparr>)")
        case None
        with eq same rd False show ?thesis by auto
      next
        case (Some a)
        show ?thesis
        proof (cases a)
          case (Inl e)
          with eq same rd False Some have "r = Inl e" by auto
          with dies[OF i rd False] Some Inl show ?thesis by simp
        next
          case (Inr b)
          obtain z1 res1 w1 where b: "b = (z1, res1, w1)" by (cases b) auto
          have i1: "I z1 res1 w1" using step[OF i rd False] Some Inr b by simp
          from eq same rd False Some Inr b have "loop env rF aw z1 res1 buflen1 w1 = Some r" by auto
          from IH[OF this] i1 show ?thesis by simp
        qed
      qed
    qed
  qed
  with inv show ?thesis by simp
qed

lemma ReadDataFromArchiveNone_loop_rule:
  assumes run: "ReadDataFromArchiveNone_loop rF aw buflen w = Some r"
    and inv: "I w"
    and step: "\<And>w buflen ah chunk buflen1. I w \<Longrightarrow>
                 rF (AH w) buflen = (ah, chunk, buflen1) \<Longrightarrow> chunk \<noteq> [] \<Longrightarrow>
                 I (w\<lparr>AH := aw chunk ah\<rparr>)"
    and exits: "\<And>w buflen ah buflen1. I w \<Longrightarrow>
                 rF (AH w) buflen = (ah, [], buflen1) \<Longrightarrow> Q (w\<lparr>AH := ah\<rparr>)"
  shows "Q r"
proof -
  have "rF = rF \<and> aw = aw \<longrightarrow> I w \<longrightarrow> Q r"
    using run
  proof (rule ReadDataFromArchiveNone_loop.raw_induct
      [rotated, where P = "\<lambda>rF' aw' buflen w r. rF' = rF \<and> aw' = aw \<longrightarrow> I w \<longrightarrow> Q r"],
      intro impI)
    fix loop rF' aw' buflen w r
    assume IH: "\<And>rF' aw' buflen w r. loop rF' aw' buflen w = Some r \<Longrightarrow>
         rF' = rF \<and> aw' = aw \<longrightarrow> I w \<longrightarrow> Q r"
      and eq: "(case rF' (AH w) buflen of
        (ah, chunk, buflen1) \<Rightarrow>
          if length chunk \<noteq> 0 then loop rF' aw' buflen1 (w\<lparr>AH := aw' chunk ah\<rparr>)
          else Some (w\<lparr>AH := ah\<rparr>)) = Some r"
      and same: "rF' = rF \<and> aw' = aw" and i: "I w"
    obtain ah chunk buflen1 where rd: "rF (AH w) buflen = (ah, chunk, buflen1)"
      by (cases "rF (AH w) buflen") auto
    show "Q r"
    proof (cases "chunk = []")
      case True
      with eq same rd have "r = w\<lparr>AH := ah\<rparr>" by auto
      with exits[OF i] rd True show ?thesis by simp
    next
      case False
      have i1: "I (w\<lparr>AH := aw chunk ah\<rparr>)" using step[OF i rd False] .
      from eq same rd False have "loop rF aw buflen1 (w\<lparr>AH := aw chunk ah\<rparr>) = Some r" by auto
      from IH[OF this] i1 show ?thesis by simp
    qed
  qed
  with inv show ?thesis by simp
qed

section \<open>The algorithm selector\<close>

lemma Parse_invalid:
  "hint \<noteq> 0 \<Longrightarrow> \<not> (1 \<le> hint \<and> hint \<le> 9) \<Longrightarrow> hint \<noteq> Z_DEFAULT_COMPRESSION
     \<Longrightarrow> ParseCompressionOption hint w = Inl (InvalidConfiguration hint, w)"
  by (simp add: ParseCompressionOption_def die_horribly_def)

lemma Parse_libz:
  "hint = Z_DEFAULT_COMPRESSION \<or> (1 \<le> hint \<and> hint \<le> 9)
     \<Longrightarrow> ParseCompressionOption hint w = Inr (COMPR_ALG_LIBZ, hint)"
  by (auto simp add: ParseCompressionOption_def)

lemma Parse_none: "ParseCompressionOption 0 w = Inr (COMPR_ALG_NONE, 0)"
  by (simp add: ParseCompressionOption_def Z_DEFAULT_COMPRESSION_def)

lemma Parse_Inr:
  "ParseCompressionOption hint w = Inr (alg, level)
     \<Longrightarrow> level = hint \<and> (alg = COMPR_ALG_LIBZ \<or> alg = COMPR_ALG_NONE)"
  by (auto simp add: ParseCompressionOption_def die_horribly_def split: if_splits)

section \<open>What the write path leaves unchanged\<close>

lemma DeflateCompressorZlib_body_heap:
  "DeflateCompressorZlib_body env cs flush z w = Inl (e, w1) \<Longrightarrow> heap w1 = heap w"
  "DeflateCompressorZlib_body env cs flush z w = Inr (z1, res1, w1) \<Longrightarrow> heap w1 = heap w"
  by (auto simp add: DeflateCompressorZlib_body_def die_horribly_def Let_def
      split: prod.splits if_splits)

lemma DeflateCompressorZlib_loop_heap:
  assumes "DeflateCompressorZlib_loop env cs flush z res w = Some r"
  shows "(\<forall>e w1. r = Inl (e, w1) \<longrightarrow> heap w1 = heap w)
       \<and> (\<forall>z1 res1 w1. r = Inr (z1, res1, w1) \<longrightarrow> heap w1 = heap w)"
  using assms
  by (rule DeflateCompressorZlib_loop_rule [where I = "\<lambda>z1 w1. heap w1 = heap w"])
    (auto dest: DeflateCompressorZlib_body_heap)

lemma DeflateCompressorZlib_heap:
  "DeflateCompressorZlib env cs flush w = Some (Inl (e, w1)) \<Longrightarrow> heap w1 = heap w"
  "DeflateCompressorZlib env cs flush w = Some (Inr (cs1, w1)) \<Longrightarrow> heap w1 = heap w"
  by (auto simp add: DeflateCompressorZlib_def split: option.splits sum.splits prod.splits
      dest!: DeflateCompressorZlib_loop_heap)

lemma DeflateCompressorZlib_cs:
  "DeflateCompressorZlib env cs flush w = Some (Inr (cs1, w1))
     \<Longrightarrow> comprAlg cs1 = comprAlg cs \<and> writeF cs1 = writeF cs
         \<and> zlibOutSize cs1 = zlibOutSize cs \<and> zp cs1 \<noteq> None"
  by (auto simp add: DeflateCompressorZlib_def split: option.splits sum.splits prod.splits)


lemma WriteDataToArchiveZlib_returns:
  assumes "WriteDataToArchiveZlib env cs data w = Some (Inr (n, cs1, w1))"
  shows "n = length data \<and> comprAlg cs1 = comprAlg cs"
proof (cases "zp cs")
  case None
  with assms show ?thesis by (simp add: WriteDataToArchiveZlib_def)
next
  case (Some z)
  let ?cs = "cs\<lparr>zp := Some (z\<lparr>next_in := take (uInt (length data)) data\<rparr>)\<rparr>"
  from assms Some obtain cs' w' where
    d: "DeflateCompressorZlib env ?cs False w = Some (Inr (cs', w'))"
    and r: "n = length data" "cs1 = cs'"
    by (auto simp add: WriteDataToArchiveZlib_def split: option.splits sum.splits)
  from DeflateCompressorZlib_cs[OF d] r show ?thesis by simp
qed

lemma WriteDataToArchiveNone_returns:
  "WriteDataToArchiveNone cs data w = Inr (n, cs1, w1) \<Longrightarrow> n = length data \<and> cs1 = cs"
  by (auto simp add: WriteDataToArchiveNone_def die_horribly_def split: prod.splits if_splits)

lemma WriteDataToArchive_returns:
  assumes "WriteDataToArchive env cs data w = Some (Inr (n, cs1, w1))"
  shows "comprAlg cs1 = comprAlg cs"
    and "comprAlg cs \<noteq> COMPR_ALG_other \<Longrightarrow> n = length data"
proof -
  have "comprAlg cs1 = comprAlg cs \<and> (comprAlg cs \<noteq> COMPR_ALG_other \<longrightarrow> n = length data)"
  proof (cases "comprAlg cs")
    case COMPR_ALG_NONE
    with assms show ?thesis
      by (auto simp add: WriteDataToArchive_def dest: WriteDataToArchiveNone_returns)
  next
    case COMPR_ALG_LIBZ
    with assms show ?thesis
      by (cases "HAVE_LIBZ env")
        (auto simp add: WriteDataToArchive_def die_horribly_def
          dest: WriteDataToArchiveZlib_returns)
  next
    case COMPR_ALG_other
    with assms show ?thesis by (simp add: WriteDataToArchive_def)
  qed
  then show "comprAlg cs1 = comprAlg cs"
    and "comprAlg cs \<noteq> COMPR_ALG_other \<Longrightarrow> n = length data" by simp_all
qed

lemma InitCompressorZlib_returns:
  assumes "InitCompressorZlib env cs level w = Inr (cs1, w1)"
  shows "comprAlg cs1 = comprAlg cs \<and> writeF cs1 = writeF cs
       \<and> zlibOutSize cs1 = ZLIB_OUT_SIZE env
       \<and> zp cs1 = Some \<lparr>next_in = [], next_out = [], avail_out = ZLIB_OUT_SIZE env,
                         zstate = snd (zlib_deflateInit env level)\<rparr>
       \<and> fst (zlib_deflateInit env level) = Z_OK
       \<and> heap w1 = insert Blk_zlibOut (insert Blk_zp (heap w)) \<and> AH w1 = AH w"
  using assms
  by (cases "malloc_ok env Blk_zp"; cases "malloc_ok env Blk_zlibOut";
      cases "zlib_deflateInit env level")
    (auto simp add: InitCompressorZlib_def malloc_def die_horribly_def split: if_splits)

lemma AllocateCompressor_alg:
  assumes "AllocateCompressor env hint wF w = Inr (cs, w1)"
  shows "comprAlg cs = COMPR_ALG_LIBZ \<or> comprAlg cs = COMPR_ALG_NONE"
proof (cases "ParseCompressionOption hint w")
  case (Inl e)
  with assms show ?thesis by (simp add: AllocateCompressor_def)
next
  case (Inr p)
  obtain alg level where p: "p = (alg, level)" by (cases p) auto
  from Inr p have alg: "alg = COMPR_ALG_LIBZ \<or> alg = COMPR_ALG_NONE"
    by (auto dest: Parse_Inr)
  show ?thesis
  proof (cases "malloc_ok env Blk_cs")
    case False
    with assms Inr p show ?thesis
      by (simp add: AllocateCompressor_def malloc_def die_horribly_def split: if_splits)
  next
    case True
    show ?thesis
    proof (cases "HAVE_LIBZ env \<and> alg = COMPR_ALG_LIBZ")
      case True
      with assms Inr p \<open>malloc_ok env Blk_cs\<close> show ?thesis
        by (auto simp add: AllocateCompressor_def malloc_def dest!: InitCompressorZlib_returns)
    next
      case False
      with assms Inr p \<open>malloc_ok env Blk_cs\<close> alg show ?thesis
        by (auto simp add: AllocateCompressor_def malloc_def die_horribly_def split: if_splits)
    qed
  qed
qed

lemma WriteAll_alg:
  "WriteAll env cs ds w = Some (Inr (cs1, w1)) \<Longrightarrow> comprAlg cs1 = comprAlg cs"
proof (induction ds arbitrary: cs w)
  case Nil
  then show ?case by simp
next
  case (Cons d ds)
  show ?case
  proof (cases "WriteDataToArchive env cs d w")
    case None
    with Cons.prems show ?thesis by simp
  next
    case (Some a)
    show ?thesis
    proof (cases a)
      case (Inl e)
      with Some Cons.prems show ?thesis by simp
    next
      case (Inr b)
      obtain n cs' w' where b: "b = (n, cs', w')" by (cases b) auto
      with Some Inr Cons.prems have "WriteAll env cs' ds w' = Some (Inr (cs1, w1))" by simp
      from Cons.IH[OF this] WriteDataToArchive_returns(1)[of env cs d w n cs' w'] Some Inr b
      show ?thesis by simp
    qed
  qed
qed

section \<open>Running the small codec\<close>

text \<open>The equations that evaluate a write on the small codec.\<close>

lemmas toy_write_eval = toy_build_def toy_deflate_def toy_deflateInit_def toy_deflateEnd_def
  toy_encode_def collect_def AllocateCompressor_def InitCompressorZlib_def
  ParseCompressionOption_def Z_DEFAULT_COMPRESSION_def malloc_def free_def die_horribly_def
  WriteDataToArchive_def WriteDataToArchiveZlib_def WriteDataToArchiveNone_def
  DeflateCompressorZlib_def DeflateCompressorZlib_loop.simps DeflateCompressorZlib_body_def
  deflate_def avail_in_def EndCompressor_def EndCompressorZlib_def WriteSession_def Let_def
  uInt_small

section \<open>What a write returns\<close>

text \<open>
  Claim C5.  On a context whose algorithm is zlib or none, a call of
  \<^verbatim>\<open>WriteDataToArchive\<close> that returns, rather than dying in \<^verbatim>\<open>die_horribly\<close> or
  looping for ever, returns the length of its input: no shorter count is ever returned.
\<close>

theorem write_returns_input_length:
  assumes "comprAlg cs = COMPR_ALG_LIBZ \<or> comprAlg cs = COMPR_ALG_NONE"
    and "WriteDataToArchive env cs data w = Some (Inr (n, cs1, w1))"
  shows "n = length data"
  using assms WriteDataToArchive_returns(2) [of env cs data w n cs1 w1] by auto

theorem write_returns_input_length_witness:
  "(comprAlg \<lparr>writeF = collect, comprAlg = COMPR_ALG_LIBZ,
       zp = Some \<lparr>next_in = [], next_out = [], avail_out = 3, zstate = ([], False)\<rparr>,
       zlibOutSize = 3\<rparr> = COMPR_ALG_LIBZ
    \<or> comprAlg \<lparr>writeF = collect, comprAlg = COMPR_ALG_LIBZ,
       zp = Some \<lparr>next_in = [], next_out = [], avail_out = 3, zstate = ([], False)\<rparr>,
       zlibOutSize = 3\<rparr> = COMPR_ALG_NONE)
   \<and> WriteDataToArchive (toy_build True 3)
       \<lparr>writeF = collect, comprAlg = COMPR_ALG_LIBZ,
        zp = Some \<lparr>next_in = [], next_out = [], avail_out = 3, zstate = ([], False)\<rparr>,
        zlibOutSize = 3\<rparr>
       [7, 8] \<lparr>AH = [], heap = {Blk_cs, Blk_zp, Blk_zlibOut}\<rparr>
     = Some (Inr (2, \<lparr>writeF = collect, comprAlg = COMPR_ALG_LIBZ,
          zp = Some \<lparr>next_in = [], next_out = [], avail_out = 3, zstate = ([8], False)\<rparr>,
          zlibOutSize = 3\<rparr>, \<lparr>AH = [[1, 7, 1]], heap = {Blk_cs, Blk_zp, Blk_zlibOut}\<rparr>))
   \<and> (2::nat) = length [7, 8 :: byte]"
proof -
  let ?cs = "\<lparr>writeF = collect, comprAlg = COMPR_ALG_LIBZ,
       zp = Some \<lparr>next_in = [], next_out = [], avail_out = 3, zstate = ([]::byte list, False)\<rparr>,
       zlibOutSize = 3\<rparr>"
  have alg: "comprAlg ?cs = COMPR_ALG_LIBZ \<or> comprAlg ?cs = COMPR_ALG_NONE" by simp
  have run: "WriteDataToArchive (toy_build True 3) ?cs
       [7, 8] \<lparr>AH = [], heap = {Blk_cs, Blk_zp, Blk_zlibOut}\<rparr>
     = Some (Inr (2, \<lparr>writeF = collect, comprAlg = COMPR_ALG_LIBZ,
          zp = Some \<lparr>next_in = [], next_out = [], avail_out = 3, zstate = ([8], False)\<rparr>,
          zlibOutSize = 3\<rparr>, \<lparr>AH = [[1, 7, 1]], heap = {Blk_cs, Blk_zp, Blk_zlibOut}\<rparr>))"
    by (simp add: toy_write_eval)
  from write_returns_input_length [OF alg run] alg run show ?thesis by simp
qed

text \<open>
  Claim C10.  The context that \<^verbatim>\<open>AllocateCompressor\<close> returns has the algorithm zlib
  or none, the writes of a session keep it, and so a write of a non-empty buffer on such
  a context never comes back with 0: the \<^verbatim>\<open>return 0\<close> behind the \<^verbatim>\<open>switch\<close> is not
  reached.
\<close>

theorem fall_through_unreachable:
  assumes "AllocateCompressor env hint wF w = Inr (cs, w1)"
    and "WriteAll env cs ds w1 = Some (Inr (cs2, w2))"
    and "WriteDataToArchive env cs2 data w3 = Some (Inr (n, cs3, w4))"
    and "data \<noteq> []"
  shows "(comprAlg cs = COMPR_ALG_LIBZ \<or> comprAlg cs = COMPR_ALG_NONE)
       \<and> (comprAlg cs2 = COMPR_ALG_LIBZ \<or> comprAlg cs2 = COMPR_ALG_NONE)
       \<and> n \<noteq> 0"
proof -
  have a: "comprAlg cs = COMPR_ALG_LIBZ \<or> comprAlg cs = COMPR_ALG_NONE"
    using assms(1) by (rule AllocateCompressor_alg)
  have b: "comprAlg cs2 = comprAlg cs"
    using assms(2) by (rule WriteAll_alg)
  from a b have "comprAlg cs2 \<noteq> COMPR_ALG_other" by auto
  with assms(3) have "n = length data" by (auto dest: WriteDataToArchive_returns(2))
  with a b assms(4) show ?thesis by simp
qed

theorem fall_through_unreachable_witness:
  "AllocateCompressor (toy_build True 3) 5 collect \<lparr>AH = [], heap = {}\<rparr>
     = Inr (\<lparr>writeF = collect, comprAlg = COMPR_ALG_LIBZ,
          zp = Some \<lparr>next_in = [], next_out = [], avail_out = 3, zstate = ([], False)\<rparr>,
          zlibOutSize = 3\<rparr>, \<lparr>AH = [], heap = {Blk_zlibOut, Blk_zp, Blk_cs}\<rparr>)
   \<and> WriteAll (toy_build True 3)
        \<lparr>writeF = collect, comprAlg = COMPR_ALG_LIBZ,
          zp = Some \<lparr>next_in = [], next_out = [], avail_out = 3, zstate = ([], False)\<rparr>,
          zlibOutSize = 3\<rparr>
        [[7], [8, 9]] \<lparr>AH = [], heap = {Blk_zlibOut, Blk_zp, Blk_cs}\<rparr>
     = Some (Inr (\<lparr>writeF = collect, comprAlg = COMPR_ALG_LIBZ,
          zp = Some \<lparr>next_in = [], next_out = [], avail_out = 3, zstate = ([8, 1, 9], False)\<rparr>,
          zlibOutSize = 3\<rparr>, \<lparr>AH = [[1, 7, 1]], heap = {Blk_zlibOut, Blk_zp, Blk_cs}\<rparr>))
   \<and> WriteDataToArchive (toy_build True 3)
        \<lparr>writeF = collect, comprAlg = COMPR_ALG_LIBZ,
          zp = Some \<lparr>next_in = [], next_out = [], avail_out = 3, zstate = ([8, 1, 9], False)\<rparr>,
          zlibOutSize = 3\<rparr>
        [10] \<lparr>AH = [[1, 7, 1]], heap = {Blk_zlibOut, Blk_zp, Blk_cs}\<rparr>
     = Some (Inr (1, \<lparr>writeF = collect, comprAlg = COMPR_ALG_LIBZ,
          zp = Some \<lparr>next_in = [], next_out = [], avail_out = 3, zstate = ([1, 10], False)\<rparr>,
          zlibOutSize = 3\<rparr>, \<lparr>AH = [[1, 7, 1], [8, 1, 9]], heap = {Blk_zlibOut, Blk_zp, Blk_cs}\<rparr>))
   \<and> [10 :: byte] \<noteq> [] \<and> (1 :: nat) \<noteq> 0"
proof -
  let ?w0 = "\<lparr>AH = [] :: byte list list, heap = {}\<rparr>"
  let ?cs = "\<lparr>writeF = collect, comprAlg = COMPR_ALG_LIBZ,
          zp = Some \<lparr>next_in = [], next_out = [], avail_out = 3, zstate = ([] :: byte list, False)\<rparr>,
          zlibOutSize = 3\<rparr>"
  let ?w1 = "\<lparr>AH = [] :: byte list list, heap = {Blk_zlibOut, Blk_zp, Blk_cs}\<rparr>"
  let ?cs2 = "\<lparr>writeF = collect, comprAlg = COMPR_ALG_LIBZ,
          zp = Some \<lparr>next_in = [], next_out = [], avail_out = 3,
                     zstate = ([8, 1, 9] :: byte list, False)\<rparr>,
          zlibOutSize = 3\<rparr>"
  let ?w2 = "\<lparr>AH = [[1, 7, 1 :: byte]], heap = {Blk_zlibOut, Blk_zp, Blk_cs}\<rparr>"
  let ?cs3 = "\<lparr>writeF = collect, comprAlg = COMPR_ALG_LIBZ,
          zp = Some \<lparr>next_in = [], next_out = [], avail_out = 3,
                     zstate = ([1, 10] :: byte list, False)\<rparr>,
          zlibOutSize = 3\<rparr>"
  let ?w4 = "\<lparr>AH = [[1, 7, 1], [8, 1, 9 :: byte]], heap = {Blk_zlibOut, Blk_zp, Blk_cs}\<rparr>"
  have a: "AllocateCompressor (toy_build True 3) 5 collect ?w0 = Inr (?cs, ?w1)"
    by (simp add: toy_write_eval)
  have b: "WriteAll (toy_build True 3) ?cs [[7], [8, 9]] ?w1 = Some (Inr (?cs2, ?w2))"
    by (simp add: toy_write_eval)
  have c: "WriteDataToArchive (toy_build True 3) ?cs2 [10] ?w2 = Some (Inr (1, ?cs3, ?w4))"
    by (simp add: toy_write_eval)
  have d: "[10 :: byte] \<noteq> []" by simp
  from fall_through_unreachable [OF a b c d] a b c show ?thesis by simp
qed

section \<open>A build without zlib\<close>

lemma AllocateCompressor_no_zlib:
  assumes "\<not> HAVE_LIBZ env" and "AllocateCompressor env hint wF w = Inr (cs, w1)"
  shows "comprAlg cs = COMPR_ALG_NONE"
proof (cases "ParseCompressionOption hint w")
  case (Inl e)
  with assms show ?thesis by (simp add: AllocateCompressor_def)
next
  case (Inr p)
  obtain alg level where p: "p = (alg, level)" by (cases p) auto
  from Inr p have "alg = COMPR_ALG_LIBZ \<or> alg = COMPR_ALG_NONE" by (auto dest: Parse_Inr)
  with assms Inr p show ?thesis
    by (cases "malloc_ok env Blk_cs")
      (auto simp add: AllocateCompressor_def malloc_def die_horribly_def)
qed

text \<open>
  Claim C4.  In a build without \<^verbatim>\<open>HAVE_LIBZ\<close> and for a hint that selects zlib,
  \<^verbatim>\<open>AllocateCompressor\<close> and \<^verbatim>\<open>ReadDataFromArchive\<close> die with
  \<open>UnsupportedAlgorithm\<close> in the world they were called in, and so does
  \<^verbatim>\<open>WriteDataToArchive\<close> on any context whose algorithm is zlib.  A session with such
  a hint dies with \<open>UnsupportedAlgorithm\<close> in \<^verbatim>\<open>AllocateCompressor\<close>, whatever is
  to be written: nothing has been allocated, no callback has been called, and neither a
  write nor \<^verbatim>\<open>EndCompressor\<close> is reached.  Nor is there another way to
  \<^verbatim>\<open>EndCompressor\<close> with zlib selected: every context that \<^verbatim>\<open>AllocateCompressor\<close>
  returns in this build, for any hint, has the algorithm none.
\<close>

theorem no_zlib_build:
  assumes "\<not> HAVE_LIBZ env"
    and "hint = Z_DEFAULT_COMPRESSION \<or> (1 \<le> hint \<and> hint \<le> 9)"
  shows "AllocateCompressor env hint wF w = Inl (UnsupportedAlgorithm, w)
       \<and> ReadDataFromArchive env hint rF aw w = Some (Inl (UnsupportedAlgorithm, w))
       \<and> (comprAlg cs = COMPR_ALG_LIBZ \<longrightarrow>
            WriteDataToArchive env cs data w = Some (Inl (UnsupportedAlgorithm, w)))
       \<and> WriteSession env hint wF ds w = Some (Inl (UnsupportedAlgorithm, w))
       \<and> (\<forall>h wF' w0 cs' w'. AllocateCompressor env h wF' w0 = Inr (cs', w')
             \<longrightarrow> comprAlg (cs' :: ('a, 'b) CompressorState) = COMPR_ALG_NONE)"
proof -
  from assms(2) have p: "ParseCompressionOption hint w = Inr (COMPR_ALG_LIBZ, hint)"
    by (rule Parse_libz)
  from p assms(1) have a: "AllocateCompressor env hint wF w = Inl (UnsupportedAlgorithm, w)"
    by (simp add: AllocateCompressor_def die_horribly_def)
  from p assms(1)
  have b: "ReadDataFromArchive env hint rF aw w = Some (Inl (UnsupportedAlgorithm, w))"
    by (simp add: ReadDataFromArchive_def die_horribly_def)
  from assms(1) have c: "comprAlg cs = COMPR_ALG_LIBZ \<longrightarrow>
      WriteDataToArchive env cs data w = Some (Inl (UnsupportedAlgorithm, w))"
    by (simp add: WriteDataToArchive_def die_horribly_def)
  from a have d: "WriteSession env hint wF ds w = Some (Inl (UnsupportedAlgorithm, w))"
    by (simp add: WriteSession_def)
  from assms(1) have e: "\<forall>h wF' w0 cs' w'. AllocateCompressor env h wF' w0 = Inr (cs', w')
             \<longrightarrow> comprAlg (cs' :: ('a, 'b) CompressorState) = COMPR_ALG_NONE"
    by (blast intro: AllocateCompressor_no_zlib)
  from a b c d e show ?thesis by blast
qed

theorem no_zlib_build_witness:
  "\<not> HAVE_LIBZ (toy_build False 3)
   \<and> ((5::int) = Z_DEFAULT_COMPRESSION \<or> (1 \<le> (5::int) \<and> (5::int) \<le> 9))
   \<and> AllocateCompressor (toy_build False 3) 5 (traced_writeF collect)
        \<lparr>AH = ([], []), heap = {}\<rparr>
       = Inl (UnsupportedAlgorithm, \<lparr>AH = ([], []), heap = {}\<rparr>)
   \<and> ReadDataFromArchive (toy_build False 3) 5 feed deliver
        \<lparr>AH = ([[1, 7, 0]], []), heap = {}\<rparr>
       = Some (Inl (UnsupportedAlgorithm, \<lparr>AH = ([[1, 7, 0]], []), heap = {}\<rparr>))
   \<and> WriteDataToArchive (toy_build False 3)
        \<lparr>writeF = traced_writeF collect, comprAlg = COMPR_ALG_LIBZ, zp = None,
         zlibOutSize = 0\<rparr>
        [7] \<lparr>AH = ([], []), heap = {}\<rparr>
       = Some (Inl (UnsupportedAlgorithm, \<lparr>AH = ([], []), heap = {}\<rparr>))
   \<and> WriteSession (toy_build False 3) 5 (traced_writeF collect) [[7, 8], [9]]
        \<lparr>AH = ([], []), heap = {}\<rparr>
       = Some (Inl (UnsupportedAlgorithm, \<lparr>AH = ([], []), heap = {}\<rparr>))"
proof -
  let ?w = "\<lparr>AH = ([] :: byte list list, [] :: io_event list), heap = {}\<rparr>"
  let ?wr = "\<lparr>AH = ([[1, 7, 0 :: byte]], [] :: byte list), heap = {}\<rparr>"
  let ?cs = "\<lparr>writeF = traced_writeF collect, comprAlg = COMPR_ALG_LIBZ,
      zp = None :: (byte list \<times> bool) z_stream option, zlibOutSize = 0\<rparr>"
  have h: "\<not> HAVE_LIBZ (toy_build False 3)" by (simp add: toy_build_def)
  have l: "(5::int) = Z_DEFAULT_COMPRESSION \<or> (1 \<le> (5::int) \<and> (5::int) \<le> 9)" by simp
  have k: "comprAlg ?cs = COMPR_ALG_LIBZ" by simp
  note t = no_zlib_build [OF h l, where wF = "traced_writeF collect" and w = ?w
      and cs = ?cs and data = "[7]" and ds = "[[7, 8], [9]]"]
  note r = no_zlib_build [OF h l, where w = ?wr and rF = feed and aw = deliver]
  have a: "AllocateCompressor (toy_build False 3) 5 (traced_writeF collect) ?w
      = Inl (UnsupportedAlgorithm, ?w)"
    using t by (rule conjunct1)
  have b: "ReadDataFromArchive (toy_build False 3) 5 feed deliver ?wr
      = Some (Inl (UnsupportedAlgorithm, ?wr))"
    using r [THEN conjunct2] by (rule conjunct1)
  have c: "WriteDataToArchive (toy_build False 3) ?cs [7] ?w
      = Some (Inl (UnsupportedAlgorithm, ?w))"
    using t [THEN conjunct2, THEN conjunct2, THEN conjunct1] k by (rule mp)
  have d: "WriteSession (toy_build False 3) 5 (traced_writeF collect) [[7, 8], [9]] ?w
      = Some (Inl (UnsupportedAlgorithm, ?w))"
    using t [THEN conjunct2, THEN conjunct2, THEN conjunct2] by (rule conjunct1)
  from h l a b c d show ?thesis by (intro conjI)
qed

section \<open>What \<^verbatim>\<open>EndCompressor\<close> releases\<close>

lemma DeflateCompressorZlib_body_dies:
  "DeflateCompressorZlib_body env cs flush z w = Inl (e, w1)
     \<Longrightarrow> e = CodecError \<or> e = DownstreamWriteFailure"
  by (auto simp add: DeflateCompressorZlib_body_def die_horribly_def Let_def
      split: prod.splits if_splits)

lemma DeflateCompressorZlib_loop_dies:
  assumes "DeflateCompressorZlib_loop env cs flush z res w = Some r"
  shows "\<forall>e w1. r = Inl (e, w1) \<longrightarrow> e = CodecError \<or> e = DownstreamWriteFailure"
  using assms
  by (rule DeflateCompressorZlib_loop_rule [where I = "\<lambda>z1 w1. True"])
    (auto dest: DeflateCompressorZlib_body_dies)

lemma DeflateCompressorZlib_dies:
  assumes "DeflateCompressorZlib env cs flush w = Some (Inl (e, w1))" and "zp cs = Some z"
  shows "e = CodecError \<or> e = DownstreamWriteFailure"
proof -
  from assms have "DeflateCompressorZlib_loop env cs flush z Z_OK w = Some (Inl (e, w1))"
    by (auto simp add: DeflateCompressorZlib_def split: option.splits sum.splits)
  from DeflateCompressorZlib_loop_dies[OF this] show ?thesis by simp
qed

lemma EndCompressorZlib_heap:
  assumes "zp cs = Some z"
  shows "EndCompressorZlib env cs w = Some (Inr w1)
           \<Longrightarrow> heap w1 = heap w - {Blk_zlibOut, Blk_zp}"
    and "EndCompressorZlib env cs w = Some (Inl (e, w1))
           \<Longrightarrow> heap w1 = heap w
               \<and> (e = CodecError \<or> e = DownstreamWriteFailure \<or> e = CodecCloseFailure)"
proof -
  let ?cs = "cs\<lparr>zp := Some (z\<lparr>next_in := []\<rparr>)\<rparr>"
  have zp: "zp ?cs = Some (z\<lparr>next_in := []\<rparr>)" by simp
  {
    assume r: "EndCompressorZlib env cs w = Some (Inr w1)"
    with assms obtain cs1 w2 z1 where
      d: "DeflateCompressorZlib env ?cs True w = Some (Inr (cs1, w2))"
      and w1: "w1 = free Blk_zp (free Blk_zlibOut w2)"
      by (auto simp add: EndCompressorZlib_def die_horribly_def
          split: option.splits sum.splits if_splits)
    from DeflateCompressorZlib_heap(2)[OF d] w1
    show "heap w1 = heap w - {Blk_zlibOut, Blk_zp}"
      by (auto simp add: free_def)
  }
  {
    assume r: "EndCompressorZlib env cs w = Some (Inl (e, w1))"
    show "heap w1 = heap w
        \<and> (e = CodecError \<or> e = DownstreamWriteFailure \<or> e = CodecCloseFailure)"
    proof (cases "DeflateCompressorZlib env ?cs True w")
      case None
      with r assms show ?thesis by (simp add: EndCompressorZlib_def)
    next
      case (Some a)
      show ?thesis
      proof (cases a)
        case (Inl b)
        with Some r assms have d: "DeflateCompressorZlib env ?cs True w = Some (Inl (e, w1))"
          by (simp add: EndCompressorZlib_def)
        from DeflateCompressorZlib_heap(1)[OF d] DeflateCompressorZlib_dies[OF d zp]
        show ?thesis by blast
      next
        case (Inr b)
        obtain cs1 w2 where b: "b = (cs1, w2)" by (cases b) auto
        from Some Inr b have d: "DeflateCompressorZlib env ?cs True w = Some (Inr (cs1, w2))"
          by simp
        from DeflateCompressorZlib_cs[OF d] obtain z1 where z1: "zp cs1 = Some z1" by auto
        from r assms d z1 have "e = CodecCloseFailure \<and> w1 = w2"
          by (auto simp add: EndCompressorZlib_def die_horribly_def split: if_splits)
        with DeflateCompressorZlib_heap(2)[OF d] show ?thesis by simp
      qed
    qed
  }
qed

text \<open>
  Claim C3, as the file has it.  On a zlib context, \<^verbatim>\<open>EndCompressor\<close> frees the
  staging buffer, the \<^verbatim>\<open>z_stream\<close> and the context when it returns.  When the final
  flush fails (the codec answers \<^verbatim>\<open>Z_STREAM_ERROR\<close>, or \<^verbatim>\<open>writeF\<close> writes short) or
  \<^verbatim>\<open>deflateEnd\<close> fails, \<^verbatim>\<open>die_horribly\<close> is called before any of the three calls of
  \<^verbatim>\<open>free\<close> is reached: the fatal condition is reported and the three blocks are as
  allocated as they were.
\<close>

theorem end_releases_on_return_only:
  assumes "HAVE_LIBZ env" and "comprAlg cs = COMPR_ALG_LIBZ" and "zp cs = Some z"
  shows "(\<forall>w1. EndCompressor env cs w = Some (Inr w1)
            \<longrightarrow> heap w1 = heap w - {Blk_zlibOut, Blk_zp, Blk_cs})
       \<and> (\<forall>e w1. EndCompressor env cs w = Some (Inl (e, w1))
            \<longrightarrow> heap w1 = heap w
                \<and> (e = CodecError \<or> e = DownstreamWriteFailure \<or> e = CodecCloseFailure))"
proof (intro conjI allI impI)
  fix w1
  assume "EndCompressor env cs w = Some (Inr w1)"
  with assms(1,2) obtain w2 where r: "EndCompressorZlib env cs w = Some (Inr w2)"
    and w1: "w1 = free Blk_cs w2"
    by (auto simp add: EndCompressor_def split: option.splits sum.splits)
  from EndCompressorZlib_heap(1)[OF assms(3) r] w1
  show "heap w1 = heap w - {Blk_zlibOut, Blk_zp, Blk_cs}"
    by (auto simp add: free_def)
next
  fix e w1
  assume "EndCompressor env cs w = Some (Inl (e, w1))"
  with assms(1,2) have r: "EndCompressorZlib env cs w = Some (Inl (e, w1))"
    by (auto simp add: EndCompressor_def split: option.splits sum.splits)
  from EndCompressorZlib_heap(2)[OF assms(3) r]
  show "heap w1 = heap w" 
    and "e = CodecError \<or> e = DownstreamWriteFailure \<or> e = CodecCloseFailure" by simp_all
qed

theorem end_releases_on_return_only_witness:
  "HAVE_LIBZ (toy_build True 3) \<and> comprAlg toy_context = COMPR_ALG_LIBZ
   \<and> zp toy_context = Some \<lparr>next_in = [], next_out = [], avail_out = 3, zstate = ([], False)\<rparr>
   \<and> EndCompressor (toy_build True 3) toy_context toy_world
       = Some (Inr \<lparr>AH = [[0]], heap = {}\<rparr>)
   \<and> heap \<lparr>AH = [[0 :: byte]], heap = {}\<rparr>
       = heap toy_world - {Blk_zlibOut, Blk_zp, Blk_cs}"
proof -
  have a: "HAVE_LIBZ (toy_build True 3)" by (simp add: toy_build_def)
  have b: "comprAlg toy_context = COMPR_ALG_LIBZ" by (simp add: toy_context_def)
  have c: "zp toy_context
      = Some \<lparr>next_in = [], next_out = [], avail_out = 3, zstate = ([], False)\<rparr>"
    by (simp add: toy_context_def)
  have d: "EndCompressor (toy_build True 3) toy_context toy_world
       = Some (Inr \<lparr>AH = [[0]], heap = {}\<rparr>)"
    by (simp add: toy_write_eval toy_context_def toy_world_def insert_Diff_if)
  from end_releases_on_return_only [OF a b c, of toy_world] d
  have "heap \<lparr>AH = [[0 :: byte]], heap = {}\<rparr> = heap toy_world - {Blk_zlibOut, Blk_zp, Blk_cs}"
    by blast
  with a b c d show ?thesis by blast
qed

text \<open>
  Claim C3 as stated fails: when \<^verbatim>\<open>deflateEnd\<close> fails, and when the write of the final
  flush comes back short, the call dies with all three blocks still allocated.
\<close>

theorem end_dies_before_release:
  "EndCompressor ((toy_build True 3)\<lparr>zlib_deflateEnd := \<lambda>s. Z_DATA_ERROR\<rparr>)
       toy_context toy_world
     = Some (Inl (CodecCloseFailure, \<lparr>AH = [[0]], heap = {Blk_cs, Blk_zp, Blk_zlibOut}\<rparr>))
   \<and> EndCompressor (toy_build True 3) (toy_context\<lparr>writeF := \<lambda>h buf. (h, 0)\<rparr>) toy_world
     = Some (Inl (DownstreamWriteFailure, \<lparr>AH = [], heap = {Blk_cs, Blk_zp, Blk_zlibOut}\<rparr>))"
  by (simp add: toy_write_eval toy_context_def toy_world_def)

section \<open>The store of the trailing zero byte\<close>

lemma inflate_accounting:
  assumes "inflate env z = (res, z1)"
  shows "avail_out z1 \<le> avail_out z"
    and "length (next_out z1) + avail_out z1 = length (next_out z) + avail_out z"
    and "avail_in z1 \<le> avail_in z"
  using assms
  by (auto simp add: inflate_def avail_in_def split: prod.splits)

lemma inflate_and_forward_eq:
  "inflate_and_forward env aw z w =
     (case inflate env (z\<lparr>next_out := [], avail_out := ZLIB_OUT_SIZE env\<rparr>) of
        (res, z1) \<Rightarrow>
          if res \<noteq> Z_OK \<and> res \<noteq> Z_STREAM_END then Inl (CodecError, w)
          else Inr (z1, res, w\<lparr>AH := aw (next_out z1) (AH w)\<rparr>))"
proof (cases "inflate env (z\<lparr>next_out := [], avail_out := ZLIB_OUT_SIZE env\<rparr>)")
  case (Pair res z1)
  from inflate_accounting(1,2)[OF Pair]
  have le: "avail_out z1 \<le> ZLIB_OUT_SIZE env"
    and len: "length (next_out z1) + avail_out z1 = ZLIB_OUT_SIZE env" by simp_all
  from le len have "nat (int (ZLIB_OUT_SIZE env) - int (avail_out z1)) = length (next_out z1)"
    by simp
  with Pair le show ?thesis
    by (simp add: inflate_and_forward_def die_horribly_def Let_def)
qed

lemma inflate_and_forward_dies:
  "inflate_and_forward env aw z w = Inl (e, w1) \<Longrightarrow> e = CodecError \<and> w1 = w"
  by (auto simp add: inflate_and_forward_eq split: prod.splits if_splits)

lemma ReadDataFromArchiveZlib_dies:
  assumes "ReadDataFromArchiveZlib env rF aw w = Some (Inl (e, w1))"
  shows "e = OutOfMemory \<or> e = CodecInitFailure \<or> e = CodecError \<or> e = CodecCloseFailure"
proof -
  let ?Q = "\<lambda>r :: ('a, 'c z_stream \<times> zres \<times> 'a world) result.
              \<forall>e w1. r = Inl (e, w1) \<longrightarrow> e = CodecError"
  have inner: "?Q r" if "ReadDataFromArchiveZlib_inner env aw z res w = Some r" for z res w r
    using that
    by (rule ReadDataFromArchiveZlib_inner_rule [where I = "\<lambda>z res w. True"])
      (auto dest: inflate_and_forward_dies)
  have outer: "?Q r"
    if "ReadDataFromArchiveZlib_outer env rF aw z res buflen w = Some r" for z res buflen w r
    using that
    by (rule ReadDataFromArchiveZlib_outer_rule [where I = "\<lambda>z res w. True"])
      (auto dest: inner)
  have drain: "?Q r" if "ReadDataFromArchiveZlib_drain env aw z res w = Some r" for z res w r
    using that
    by (rule ReadDataFromArchiveZlib_drain_rule [where I = "\<lambda>z res w. True"])
      (auto dest: inflate_and_forward_dies)
  show ?thesis
  proof (cases "malloc_ok env Blk_read_zp \<and> malloc_ok env Blk_read_buf
      \<and> malloc_ok env Blk_read_out \<and> fst (zlib_inflateInit env) = Z_OK")
    case False
    with assms show ?thesis
      by (auto simp add: ReadDataFromArchiveZlib_def malloc_def die_horribly_def
          split: if_splits prod.splits)
  next
    case True
    let ?w3 = "w\<lparr>heap := insert Blk_read_out (insert Blk_read_buf (insert Blk_read_zp (heap w)))\<rparr>"
    let ?z0 = "\<lparr>next_in = [], next_out = [], avail_out = 0,
                zstate = snd (zlib_inflateInit env)\<rparr>"
    show ?thesis
    proof (cases "ReadDataFromArchiveZlib_outer env rF aw ?z0 Z_OK (ZLIB_IN_SIZE env) ?w3")
      case None
      with True assms show ?thesis
        by (simp add: ReadDataFromArchiveZlib_def malloc_def split: prod.splits)
    next
      case (Some a)
      show ?thesis
      proof (cases a)
        case (Inl b)
        with Some True assms outer[OF Some] show ?thesis
          by (auto simp add: ReadDataFromArchiveZlib_def malloc_def split: prod.splits)
      next
        case (Inr b)
        obtain z1 res1 w4 where b: "b = (z1, res1, w4)" by (cases b) auto
        show ?thesis
        proof (cases "ReadDataFromArchiveZlib_drain env aw (z1\<lparr>next_in := []\<rparr>) res1 w4")
          case None
          with Some Inr b True assms show ?thesis
            by (simp add: ReadDataFromArchiveZlib_def malloc_def split: prod.splits)
        next
          case (Some c)
          from drain[OF Some] \<open>ReadDataFromArchiveZlib_outer env rF aw ?z0 Z_OK
              (ZLIB_IN_SIZE env) ?w3 = Some a\<close> Some Inr b True assms
          show ?thesis
            by (auto simp add: ReadDataFromArchiveZlib_def malloc_def die_horribly_def
                split: prod.splits sum.splits if_splits)
        qed
      qed
    qed
  qed
qed

text \<open>
  Claim C9.  On the read path the stream is given \<^verbatim>\<open>ZLIB_OUT_SIZE\<close> bytes of output
  space before each call of \<^verbatim>\<open>inflate\<close>, and \<^verbatim>\<open>inflate\<close> only lowers
  \<^verbatim>\<open>avail_out\<close>; so after the call \<^verbatim>\<open>avail_out\<close> is at most \<^verbatim>\<open>ZLIB_OUT_SIZE\<close> and
  the index \<^verbatim>\<open>ZLIB_OUT_SIZE - avail_out\<close> of the zero byte lies between 0 and
  \<^verbatim>\<open>ZLIB_OUT_SIZE\<close>, inside the \<^verbatim>\<open>ZLIB_OUT_SIZE + 1\<close> bytes of \<^verbatim>\<open>out\<close>.  Hence no
  step of the inner loop or of the drain loop ends in \<open>OutOfBoundsWrite\<close>, and neither
  does \<^verbatim>\<open>ReadDataFromArchiveZlib\<close>.
\<close>

theorem zero_byte_store_in_bounds:
  "(\<forall>z res z1. inflate env (z\<lparr>next_out := [], avail_out := ZLIB_OUT_SIZE env\<rparr>) = (res, z1)
       \<longrightarrow> avail_out z1 \<le> ZLIB_OUT_SIZE env
           \<and> 0 \<le> int (ZLIB_OUT_SIZE env) - int (avail_out z1)
           \<and> int (ZLIB_OUT_SIZE env) - int (avail_out z1) < int (ZLIB_OUT_SIZE env + 1))
   \<and> (\<forall>z w e w1. inflate_and_forward env aw z w = Inl (e, w1) \<longrightarrow> e \<noteq> OutOfBoundsWrite)
   \<and> (\<forall>e w1. ReadDataFromArchiveZlib env rF aw w = Some (Inl (e, w1))
         \<longrightarrow> e \<noteq> OutOfBoundsWrite)"
proof (intro conjI allI impI)
  fix z res z1
  assume a: "inflate env (z\<lparr>next_out := [], avail_out := ZLIB_OUT_SIZE env\<rparr>) = (res, z1)"
  from inflate_accounting(1)[OF a] show le: "avail_out z1 \<le> ZLIB_OUT_SIZE env" by simp
  from le show "0 \<le> int (ZLIB_OUT_SIZE env) - int (avail_out z1)" by simp
  show "int (ZLIB_OUT_SIZE env) - int (avail_out z1) < int (ZLIB_OUT_SIZE env + 1)" by simp
next
  fix z w e w1
  assume "inflate_and_forward env aw z w = Inl (e, w1)"
  from inflate_and_forward_dies[OF this] show "e \<noteq> OutOfBoundsWrite" by simp
next
  fix e w1
  assume "ReadDataFromArchiveZlib env rF aw w = Some (Inl (e, w1))"
  from ReadDataFromArchiveZlib_dies[OF this] show "e \<noteq> OutOfBoundsWrite" by auto
qed

theorem zero_byte_store_in_bounds_witness:
  "inflate (toy_build True 3)
      (\<lparr>next_in = [1, 7, 1, 8], next_out = [9, 9], avail_out = 0, zstate = (Tag, [])\<rparr>
         \<lparr>next_out := [], avail_out := ZLIB_OUT_SIZE (toy_build True 3)\<rparr>)
     = (Z_OK, \<lparr>next_in = [], next_out = [7, 8], avail_out = 1, zstate = (Tag, [])\<rparr>)
   \<and> (1::nat) \<le> ZLIB_OUT_SIZE (toy_build True 3)
   \<and> ReadDataFromArchiveZlib (toy_build True 3) feed deliver \<lparr>AH = ([[5]], []), heap = {}\<rparr>
     = Some (Inl (CodecError,
          \<lparr>AH = ([], []), heap = {Blk_read_zp, Blk_read_buf, Blk_read_out}\<rparr>))
   \<and> CodecError \<noteq> OutOfBoundsWrite"
proof -
  have a: "inflate (toy_build True 3)
      (\<lparr>next_in = [1, 7, 1, 8], next_out = [9, 9], avail_out = 0, zstate = (Tag, [])\<rparr>
         \<lparr>next_out := [], avail_out := ZLIB_OUT_SIZE (toy_build True 3)\<rparr>)
     = (Z_OK, \<lparr>next_in = [], next_out = [7, 8], avail_out = 1, zstate = (Tag, [])\<rparr>)"
    by code_simp
  have b: "ReadDataFromArchiveZlib (toy_build True 3) feed deliver
       \<lparr>AH = ([[5]], []), heap = {}\<rparr>
     = Some (Inl (CodecError,
          \<lparr>AH = ([], []), heap = {Blk_read_zp, Blk_read_buf, Blk_read_out}\<rparr>))"
    by code_simp
  note t = zero_byte_store_in_bounds [of "toy_build True 3" deliver feed
      "\<lparr>AH = ([[5]], []), heap = {}\<rparr>"]
  from t [THEN conjunct1, rule_format, OF a]
  have c: "(1::nat) \<le> ZLIB_OUT_SIZE (toy_build True 3)" by simp
  from t [THEN conjunct2, THEN conjunct2, rule_format, OF b]
  have d: "CodecError \<noteq> OutOfBoundsWrite" .
  from a b c d show ?thesis by (intro conjI)
qed

section \<open>No chunk of length zero\<close>

lemma deflate_accounting:
  assumes "deflate env z fl = (res, z1)"
  shows "avail_out z1 \<le> avail_out z"
    and "length (next_out z1) + avail_out z1 = length (next_out z) + avail_out z"
    and "avail_in z1 \<le> avail_in z"
  using assms
  by (auto simp add: deflate_def avail_in_def split: prod.splits)

lemma DeflateCompressorZlib_body_accounted:
  assumes "DeflateCompressorZlib_body env cs flush z w = Inr (z1, res1, w1)"
    and "accounted (zlibOutSize cs) z"
  shows "accounted (zlibOutSize cs) z1"
proof -
  obtain res z' where d: "deflate env z (if flush then Z_FINISH else Z_NO_FLUSH) = (res, z')"
    by (cases "deflate env z (if flush then Z_FINISH else Z_NO_FLUSH)") auto
  from deflate_accounting(2)[OF d] assms(2) have "accounted (zlibOutSize cs) z'"
    by (simp add: accounted_def)
  with assms(1) d show ?thesis
    by (auto simp add: DeflateCompressorZlib_body_def die_horribly_def Let_def accounted_def
        split: if_splits prod.splits)
qed

lemma DeflateCompressorZlib_body_trace:
  assumes "DeflateCompressorZlib_body env cs flush z w = r"
    and "writeF cs = traced_writeF wF"
    and "accounted (zlibOutSize cs) z"
    and "no_empty_write w"
  shows "no_empty_write (case r of Inl (e, w1) \<Rightarrow> w1 | Inr (z1, res1, w1) \<Rightarrow> w1)"
proof -
  obtain res z' where d: "deflate env z (if flush then Z_FINISH else Z_NO_FLUSH) = (res, z')"
    by (cases "deflate env z (if flush then Z_FINISH else Z_NO_FLUSH)") auto
  from deflate_accounting(2)[OF d] assms(3)
  have acc: "length (next_out z') + avail_out z' = zlibOutSize cs"
    by (simp add: accounted_def)
  show ?thesis
  proof (cases "avail_out z' < zlibOutSize cs")
    case False
    with assms(1,4) d show ?thesis
      by (auto simp add: DeflateCompressorZlib_body_def die_horribly_def Let_def
          split: if_splits)
  next
    case True
    with acc have ne: "take (zlibOutSize cs - avail_out z') (next_out z') \<noteq> []"
      by auto
    obtain ah n where wr: "wF (fst (AH w)) (take (zlibOutSize cs - avail_out z') (next_out z'))
        = (ah, n)"
      by (cases "wF (fst (AH w)) (take (zlibOutSize cs - avail_out z') (next_out z'))") auto
    from assms(1,2,4) d True ne wr show ?thesis
      by (auto simp add: DeflateCompressorZlib_body_def die_horribly_def Let_def
          traced_writeF_def no_empty_write_def split: if_splits)
  qed
qed

lemma DeflateCompressorZlib_loop_trace:
  assumes run: "DeflateCompressorZlib_loop env cs flush z res w = Some r"
    and wf: "writeF cs = traced_writeF wF"
    and acc: "accounted (zlibOutSize cs) z"
    and tr: "no_empty_write w"
  shows "case r of Inl (e, w1) \<Rightarrow> no_empty_write w1
         | Inr (z1, res1, w1) \<Rightarrow> no_empty_write w1 \<and> accounted (zlibOutSize cs) z1"
  using run
proof (rule DeflateCompressorZlib_loop_rule
    [where I = "\<lambda>z w. accounted (zlibOutSize cs) z \<and> no_empty_write w"])
  show "accounted (zlibOutSize cs) z \<and> no_empty_write w" using acc tr by simp
next
  fix z w z1 res1 w1
  assume i: "accounted (zlibOutSize cs) z \<and> no_empty_write w"
    and b: "DeflateCompressorZlib_body env cs flush z w = Inr (z1, res1, w1)"
  from DeflateCompressorZlib_body_accounted[OF b] DeflateCompressorZlib_body_trace[OF b wf] i
  show "accounted (zlibOutSize cs) z1 \<and> no_empty_write w1" by simp
next
  fix z w e
  assume i: "accounted (zlibOutSize cs) z \<and> no_empty_write w"
    and b: "DeflateCompressorZlib_body env cs flush z w = Inl e"
  from DeflateCompressorZlib_body_trace[OF b wf] i
  show "case Inl e of Inl (e, w1) \<Rightarrow> no_empty_write w1
         | Inr (z1, res1, w1) \<Rightarrow> no_empty_write w1 \<and> accounted (zlibOutSize cs) z1"
    by (cases e) simp
next
  fix z w z1 w1
  assume i: "accounted (zlibOutSize cs) z \<and> no_empty_write w"
    and b: "DeflateCompressorZlib_body env cs flush z w = Inr (z1, Z_STREAM_END, w1)"
  from DeflateCompressorZlib_body_accounted[OF b] DeflateCompressorZlib_body_trace[OF b wf] i
  show "case Inr (z1, Z_STREAM_END, w1) of Inl (e, w1) \<Rightarrow> no_empty_write w1
         | Inr (z1, res1, w1) \<Rightarrow> no_empty_write w1 \<and> accounted (zlibOutSize cs) z1"
    by simp
next
  fix z res w
  assume i: "accounted (zlibOutSize cs) z \<and> no_empty_write w"
  then show "case Inr (z, res, w) of Inl (e, w1) \<Rightarrow> no_empty_write w1
         | Inr (z1, res1, w1) \<Rightarrow> no_empty_write w1 \<and> accounted (zlibOutSize cs) z1"
    by simp
qed

lemma DeflateCompressorZlib_trace:
  assumes run: "DeflateCompressorZlib env cs flush w = Some r"
    and wf: "writeF cs = traced_writeF wF"
    and acc: "zp cs = Some z" "accounted (zlibOutSize cs) z"
    and tr: "no_empty_write w"
  shows "case r of Inl (e, w1) \<Rightarrow> no_empty_write w1
         | Inr (cs1, w1) \<Rightarrow> no_empty_write w1
             \<and> (\<exists>z1. zp cs1 = Some z1 \<and> accounted (zlibOutSize cs1) z1)
             \<and> writeF cs1 = writeF cs \<and> comprAlg cs1 = comprAlg cs"
proof (cases "DeflateCompressorZlib_loop env cs flush z Z_OK w")
  case None
  with run acc show ?thesis by (simp add: DeflateCompressorZlib_def)
next
  case (Some a)
  from DeflateCompressorZlib_loop_trace[OF Some wf acc(2) tr] run acc(1) Some
  show ?thesis
    by (auto simp add: DeflateCompressorZlib_def split: sum.splits)
qed

lemma WriteDataToArchive_trace:
  assumes run: "WriteDataToArchive env cs data w = Some r"
    and alg: "comprAlg cs = COMPR_ALG_LIBZ"
    and wf: "writeF cs = traced_writeF wF"
    and acc: "cs_accounted cs"
    and tr: "no_empty_write w"
  shows "case r of Inl (e, w1) \<Rightarrow> no_empty_write w1
         | Inr (n, cs1, w1) \<Rightarrow> no_empty_write w1 \<and> cs_accounted cs1
             \<and> writeF cs1 = writeF cs \<and> comprAlg cs1 = comprAlg cs"
proof (cases "HAVE_LIBZ env")
  case False
  with run alg tr show ?thesis
    by (auto simp add: WriteDataToArchive_def die_horribly_def)
next
  case True
  from acc obtain z where z: "zp cs = Some z" "accounted (zlibOutSize cs) z"
    by (auto simp add: cs_accounted_def)
  let ?cs = "cs\<lparr>zp := Some (z\<lparr>next_in := take (uInt (length data)) data\<rparr>)\<rparr>"
  have z': "zp ?cs = Some (z\<lparr>next_in := take (uInt (length data)) data\<rparr>)"
    "accounted (zlibOutSize ?cs) (z\<lparr>next_in := take (uInt (length data)) data\<rparr>)"
    using z by (simp_all add: accounted_def)
  have wf': "writeF ?cs = traced_writeF wF" using wf by simp
  show ?thesis
  proof (cases "DeflateCompressorZlib env ?cs False w")
    case None
    with run alg True z show ?thesis
      by (simp add: WriteDataToArchive_def WriteDataToArchiveZlib_def)
  next
    case (Some a)
    from DeflateCompressorZlib_trace[OF Some wf' z' tr] run alg True z Some
    show ?thesis
      by (auto simp add: WriteDataToArchive_def WriteDataToArchiveZlib_def cs_accounted_def
          split: sum.splits)
  qed
qed

lemma WriteAll_trace:
  assumes run: "WriteAll env cs ds w = Some r"
    and alg: "comprAlg cs = COMPR_ALG_LIBZ"
    and wf: "writeF cs = traced_writeF wF"
    and acc: "cs_accounted cs"
    and tr: "no_empty_write w"
  shows "case r of Inl (e, w1) \<Rightarrow> no_empty_write w1
         | Inr (cs1, w1) \<Rightarrow> no_empty_write w1 \<and> cs_accounted cs1
             \<and> writeF cs1 = traced_writeF wF \<and> comprAlg cs1 = COMPR_ALG_LIBZ"
  using assms
proof (induction ds arbitrary: cs w)
  case Nil
  then show ?case by auto
next
  case (Cons d ds)
  show ?case
  proof (cases "WriteDataToArchive env cs d w")
    case None
    with Cons.prems(1) show ?thesis by simp
  next
    case (Some a)
    note t = WriteDataToArchive_trace[OF Some Cons.prems(2-5)]
    show ?thesis
    proof (cases a)
      case (Inl b)
      with t Some Cons.prems(1) show ?thesis by auto
    next
      case (Inr b)
      obtain n cs1 w1 where b: "b = (n, cs1, w1)" by (cases b) auto
      from Some Inr b Cons.prems(1) have run': "WriteAll env cs1 ds w1 = Some r" by simp
      from t Inr b Cons.prems(2,3)
      have "comprAlg cs1 = COMPR_ALG_LIBZ" "writeF cs1 = traced_writeF wF"
        "cs_accounted cs1" "no_empty_write w1" by simp_all
      from Cons.IH[OF run' this] show ?thesis .
    qed
  qed
qed

lemma EndCompressor_trace:
  assumes run: "EndCompressor env cs w = Some r"
    and alg: "comprAlg cs = COMPR_ALG_LIBZ"
    and wf: "writeF cs = traced_writeF wF"
    and acc: "cs_accounted cs"
    and tr: "no_empty_write w"
  shows "no_empty_write (final_world r)"
proof (cases "HAVE_LIBZ env")
  case False
  with run tr show ?thesis
    by (auto simp add: EndCompressor_def final_world_def free_def no_empty_write_def)
next
  case True
  from acc obtain z where z: "zp cs = Some z" "accounted (zlibOutSize cs) z"
    by (auto simp add: cs_accounted_def)
  let ?cs = "cs\<lparr>zp := Some (z\<lparr>next_in := []\<rparr>)\<rparr>"
  have z': "zp ?cs = Some (z\<lparr>next_in := []\<rparr>)"
    "accounted (zlibOutSize ?cs) (z\<lparr>next_in := []\<rparr>)"
    using z by (simp_all add: accounted_def)
  have wf': "writeF ?cs = traced_writeF wF" using wf by simp
  show ?thesis
  proof (cases "DeflateCompressorZlib env ?cs True w")
    case None
    with run alg True z show ?thesis
      by (simp add: EndCompressor_def EndCompressorZlib_def)
  next
    case (Some a)
    from DeflateCompressorZlib_trace[OF Some wf' z' tr] run alg True z Some
    show ?thesis
      by (auto simp add: EndCompressor_def EndCompressorZlib_def final_world_def free_def
          die_horribly_def no_empty_write_def split: sum.splits if_splits)
  qed
qed


lemma AllocateCompressor_libz:
  assumes "AllocateCompressor env hint wF w = Inr (cs, w1)"
    and "hint = Z_DEFAULT_COMPRESSION \<or> (1 \<le> hint \<and> hint \<le> 9)"
  shows "HAVE_LIBZ env \<and> malloc_ok env Blk_cs
       \<and> InitCompressorZlib env \<lparr>writeF = wF, comprAlg = COMPR_ALG_LIBZ, zp = None,
            zlibOutSize = 0\<rparr> hint (w\<lparr>heap := insert Blk_cs (heap w)\<rparr>) = Inr (cs, w1)"
proof -
  from assms(2) have p: "ParseCompressionOption hint w = Inr (COMPR_ALG_LIBZ, hint)"
    by (rule Parse_libz)
  with assms(1) show ?thesis
    by (cases "HAVE_LIBZ env"; cases "malloc_ok env Blk_cs")
      (auto simp add: AllocateCompressor_def malloc_def die_horribly_def)
qed

text \<open>
  Claim C2.  In a session whose hint selects zlib, whatever the codec answers and
  whatever is written (empty buffers included), \<^verbatim>\<open>writeF\<close> is never called with a
  chunk of length zero: if the log of the callbacks holds no such call when the session
  starts, it holds none when the session ends, whether it ends by returning or by dying.
  The staging buffer is handed to \<^verbatim>\<open>writeF\<close> only under the test
  \<^verbatim>\<open>zp->avail_out < cs->zlibOutSize\<close>, and then it holds
  \<^verbatim>\<open>zlibOutSize - avail_out\<close> bytes, at least one.
\<close>

theorem no_zero_length_chunk:
  assumes "hint = Z_DEFAULT_COMPRESSION \<or> (1 \<le> hint \<and> hint \<le> 9)"
    and "WriteF [] \<notin> set (snd (AH w))"
    and "WriteSession env hint (traced_writeF wF) ds w = Some r"
  shows "WriteF [] \<notin> set (snd (AH (final_world r)))"
proof (cases "AllocateCompressor env hint (traced_writeF wF) w")
  case (Inl e)
  with assms(3) Parse_libz[OF assms(1), of w] have "AH (final_world r) = AH w"
    by (auto simp add: WriteSession_def final_world_def AllocateCompressor_def
        InitCompressorZlib_def malloc_def die_horribly_def Let_def
        split: sum.splits prod.splits if_splits)
  with assms(2) show ?thesis by simp
next
  case (Inr a)
  obtain cs w1 where a: "a = (cs, w1)" by (cases a) auto
  from AllocateCompressor_libz[OF Inr[unfolded a] assms(1)]
  have init: "InitCompressorZlib env \<lparr>writeF = traced_writeF wF, comprAlg = COMPR_ALG_LIBZ,
      zp = None, zlibOutSize = 0\<rparr> hint (w\<lparr>heap := insert Blk_cs (heap w)\<rparr>) = Inr (cs, w1)"
    by simp
  from InitCompressorZlib_returns[OF init]
  have cs: "comprAlg cs = COMPR_ALG_LIBZ" "writeF cs = traced_writeF wF" "cs_accounted cs"
    and w1: "no_empty_write w1"
    using assms(2) by (simp_all add: cs_accounted_def accounted_def no_empty_write_def)
  show ?thesis
  proof (cases "WriteAll env cs ds w1")
    case None
    with Inr a assms(3) show ?thesis by (simp add: WriteSession_def)
  next
    case (Some b)
    note t = WriteAll_trace[OF Some cs w1]
    show ?thesis
    proof (cases b)
      case (Inl c)
      with t Some Inr a assms(3) show ?thesis
        by (auto simp add: WriteSession_def final_world_def no_empty_write_def)
    next
      case (Inr c)
      obtain cs2 w2 where c: "c = (cs2, w2)" by (cases c) auto
      from Some Inr c \<open>AllocateCompressor env hint (traced_writeF wF) w = Inr a\<close> a assms(3)
      have e: "EndCompressor env cs2 w2 = Some r" by (simp add: WriteSession_def)
      from t Inr c have "comprAlg cs2 = COMPR_ALG_LIBZ" "writeF cs2 = traced_writeF wF"
        "cs_accounted cs2" "no_empty_write w2" by simp_all
      from EndCompressor_trace[OF e this] show ?thesis by (simp add: no_empty_write_def)
    qed
  qed
qed

theorem no_zero_length_chunk_witness:
  "((5::int) = Z_DEFAULT_COMPRESSION \<or> (1 \<le> (5::int) \<and> (5::int) \<le> 9))
   \<and> WriteF [] \<notin> set (snd (AH \<lparr>AH = ([] :: byte list list, []), heap = {}\<rparr>))
   \<and> WriteSession (toy_build True 3) 5 (traced_writeF collect) [[7, 8], [], [9]]
        \<lparr>AH = ([], []), heap = {}\<rparr>
       = Some (Inr \<lparr>AH = ([[1, 7, 1], [8, 1, 9], [0]],
                          [WriteF [1, 7, 1], WriteF [8, 1, 9], WriteF [0]]), heap = {}\<rparr>)
   \<and> WriteF [] \<notin> set (snd (AH (final_world (Inr \<lparr>AH = ([[1, 7, 1], [8, 1, 9], [0 :: byte]],
                          [WriteF [1, 7, 1], WriteF [8, 1, 9], WriteF [0]]), heap = {}\<rparr>))))"
proof -
  have a: "(5::int) = Z_DEFAULT_COMPRESSION \<or> (1 \<le> (5::int) \<and> (5::int) \<le> 9)" by simp
  have b: "WriteF [] \<notin> set (snd (AH \<lparr>AH = ([] :: byte list list, []), heap = {}\<rparr>))" by simp
  have c: "WriteSession (toy_build True 3) 5 (traced_writeF collect) [[7, 8], [], [9]]
        \<lparr>AH = ([], []), heap = {}\<rparr>
       = Some (Inr \<lparr>AH = ([[1, 7, 1], [8, 1, 9], [0]],
                          [WriteF [1, 7, 1], WriteF [8, 1, 9], WriteF [0]]), heap = {}\<rparr>)"
    by code_simp
  from no_zero_length_chunk [OF a b c] a b c show ?thesis by (intro conjI)
qed

section \<open>The flush loop ends\<close>

lemma deflate_unfold:
  assumes "zlib_deflate env (zstate z) (next_in z) (avail_out z) fl = (r, s, n, out)"
  shows "deflate env z fl =
     (r, z\<lparr>next_in := drop (min n (avail_in z)) (next_in z),
           next_out := next_out z @ take (avail_out z) out,
           avail_out := avail_out z - length (take (avail_out z) out),
           zstate := s\<rparr>)"
  using assms by (simp add: deflate_def)

lemma DeflateCompressorZlib_body_cases:
  assumes "deflate env z (if flush then Z_FINISH else Z_NO_FLUSH) = (r, z')"
    and "DeflateCompressorZlib_body env cs flush z w = Inr (z1, res1, w1)"
  shows "res1 = r
       \<and> (z1 = z' \<and> avail_out z' \<noteq> 0
          \<or> z1 = z'\<lparr>next_out := [], avail_out := zlibOutSize cs\<rparr>)"
  using assms
  by (auto simp add: DeflateCompressorZlib_body_def die_horribly_def Let_def
      split: if_splits prod.splits)

lemma DeflateCompressorZlib_body_progress:
  assumes prog: "deflate_progress env \<mu>"
    and body: "DeflateCompressorZlib_body env cs flush z w = Inr (z1, res1, w1)"
    and cond: "avail_in z \<noteq> 0 \<or> flush"
    and out: "0 < avail_out z" "0 < zlibOutSize cs"
    and nend: "res1 \<noteq> Z_STREAM_END"
  shows "(avail_in z1 < avail_in z
          \<or> avail_in z1 = avail_in z \<and> \<mu> (zstate z1) < \<mu> (zstate z))
       \<and> 0 < avail_out z1"
proof -
  let ?fl = "if flush then Z_FINISH else Z_NO_FLUSH"
  obtain r s n out where
    c: "zlib_deflate env (zstate z) (next_in z) (avail_out z) ?fl = (r, s, n, out)"
    by (cases "zlib_deflate env (zstate z) (next_in z) (avail_out z) ?fl") auto
  obtain z' where d: "deflate env z ?fl = (r, z')"
    and z': "next_in z' = drop (min n (avail_in z)) (next_in z)" "zstate z' = s"
    using deflate_unfold[OF c] by simp
  from DeflateCompressorZlib_body_cases[OF d body] out(2)
  have shape: "res1 = r" "next_in z1 = next_in z'" "zstate z1 = zstate z'" "0 < avail_out z1"
    by auto
  from cond have "next_in z \<noteq> [] \<or> ?fl = Z_FINISH" by (auto simp add: avail_in_def)
  with prog c out(1) nend shape(1)
  have "0 < min n (length (next_in z)) \<or> \<mu> s < \<mu> (zstate z)"
    unfolding deflate_progress_def by blast
  with shape z' show ?thesis
    by (auto simp add: avail_in_def)
qed

lemma DeflateCompressorZlib_body_end:
  assumes "end_only_on_finish env"
    and "DeflateCompressorZlib_body env cs flush z w = Inr (z1, Z_STREAM_END, w1)"
  shows "flush"
proof -
  let ?fl = "if flush then Z_FINISH else Z_NO_FLUSH"
  obtain r s n out where
    c: "zlib_deflate env (zstate z) (next_in z) (avail_out z) ?fl = (r, s, n, out)"
    by (cases "zlib_deflate env (zstate z) (next_in z) (avail_out z) ?fl") auto
  obtain z' where d: "deflate env z ?fl = (r, z')"
    using deflate_unfold[OF c] by simp
  from DeflateCompressorZlib_body_cases[OF d assms(2)] have "r = Z_STREAM_END" by simp
  with assms(1) c have "?fl = Z_FINISH" unfolding end_only_on_finish_def by blast
  then show ?thesis by (simp split: if_splits)
qed

lemma DeflateCompressorZlib_loop_terminates:
  assumes prog: "deflate_progress env \<mu>"
    and eof: "end_only_on_finish env"
    and size: "0 < zlibOutSize cs"
    and out: "0 < avail_out z"
  shows "\<exists>r. DeflateCompressorZlib_loop env cs flush z res w = Some r
           \<and> (case r of Inl e \<Rightarrow> True
               | Inr (z1, res1, w1) \<Rightarrow>
                   if flush then res1 = Z_STREAM_END else avail_in z1 = 0)"
proof -
  define R where
    "R = inv_image (less_than <*lex*> less_than) (\<lambda>z :: 'a z_stream. (avail_in z, \<mu> (zstate z)))"
  have "wf R" unfolding R_def by (intro wf_inv_image wf_lex_prod wf_less_than)
  then show ?thesis using out
  proof (induction z arbitrary: res w rule: wf_induct_rule)
    case (less z)
    show ?case
    proof (cases "avail_in z \<noteq> 0 \<or> flush")
      case False
      then show ?thesis
        by (subst DeflateCompressorZlib_loop.simps) simp
    next
      case True
      show ?thesis
      proof (cases "DeflateCompressorZlib_body env cs flush z w")
        case (Inl e)
        with True show ?thesis
          by (subst DeflateCompressorZlib_loop.simps) simp
      next
        case (Inr b)
        obtain z1 res1 w1 where b: "b = (z1, res1, w1)" by (cases b) auto
        show ?thesis
        proof (cases "res1 = Z_STREAM_END")
          case True
          from DeflateCompressorZlib_body_end[OF eof Inr[unfolded b True]] have flush .
          with True Inr b show ?thesis
            by (subst DeflateCompressorZlib_loop.simps) simp
        next
          case False
          from DeflateCompressorZlib_body_progress[OF prog Inr[unfolded b] True less.prems size False]
          have dec: "(z1, z) \<in> R" and out1: "0 < avail_out z1"
            by (auto simp add: R_def)
          from less.IH[OF dec out1, of res1 w1] False True Inr b show ?thesis
            by (subst DeflateCompressorZlib_loop.simps) simp
        qed
      qed
    qed
  qed
qed

lemma toy_deflate_progress: "deflate_progress (toy_build have_libz n) toy_mu"
  unfolding deflate_progress_def
proof (intro allI impI)
  fix s :: "byte list \<times> bool" and inp ao fl r s1 k out
  assume a: "zlib_deflate (toy_build have_libz n) s inp ao fl = (r, s1, k, out) \<and> 0 < ao
      \<and> (inp \<noteq> [] \<or> fl = Z_FINISH) \<and> r \<noteq> Z_STREAM_END"
  show "0 < min k (length inp) \<or> toy_mu s1 < toy_mu s"
  proof (cases "inp = []")
    case False
    with a show ?thesis by (auto simp add: toy_build_def toy_deflate_def Let_def)
  next
    case True
    with a have fl: "fl = Z_FINISH" by simp
    let ?q = "fst s @ (if \<not> snd s then [0] else [])"
    from a True fl have "drop ao ?q \<noteq> []" and "s1 = (drop ao ?q, True)"
      by (auto simp add: toy_build_def toy_deflate_def toy_encode_def Let_def split: if_splits)
    with a show ?thesis by (auto simp add: toy_mu_def)
  qed
qed

lemma toy_end_only_on_finish: "end_only_on_finish (toy_build have_libz n)"
  unfolding end_only_on_finish_def
  by (auto simp add: toy_build_def toy_deflate_def Let_def split: if_splits)

text \<open>
  Claim C8.  Let the codec make forward progress and answer \<^verbatim>\<open>Z_STREAM_END\<close> to
  \<^verbatim>\<open>Z_FINISH\<close> only, and let the context have its stream, output space left and a
  staging buffer of positive size (as every context made by \<^verbatim>\<open>InitCompressorZlib\<close>
  has).  Then the loop of \<^verbatim>\<open>DeflateCompressorZlib\<close> is left, by dying or by
  returning, and so the function is; when the loop returns, a call without flush has used
  up its input (\<^verbatim>\<open>avail_in\<close> is 0) and a call with flush has seen the codec answer
  \<^verbatim>\<open>Z_STREAM_END\<close>.
\<close>

theorem deflate_loop_terminates:
  assumes "deflate_progress env \<mu>"
    and "end_only_on_finish env"
    and "zp cs = Some z" and "0 < avail_out z" and "0 < zlibOutSize cs"
  shows "(\<exists>r. DeflateCompressorZlib_loop env cs flush z Z_OK w = Some r
            \<and> (case r of Inl e \<Rightarrow> True
                | Inr (z1, res1, w1) \<Rightarrow>
                    if flush then res1 = Z_STREAM_END else avail_in z1 = 0))
       \<and> (\<exists>r. DeflateCompressorZlib env cs flush w = Some r)"
proof -
  from DeflateCompressorZlib_loop_terminates[OF assms(1,2,5,4), of flush Z_OK w]
  obtain r where r: "DeflateCompressorZlib_loop env cs flush z Z_OK w = Some r"
    and p: "case r of Inl e \<Rightarrow> True
            | Inr (z1, res1, w1) \<Rightarrow> if flush then res1 = Z_STREAM_END else avail_in z1 = 0"
    by blast
  from r assms(3) have "\<exists>r'. DeflateCompressorZlib env cs flush w = Some r'"
    by (cases r) (auto simp add: DeflateCompressorZlib_def)
  with r p show ?thesis by blast
qed

theorem deflate_loop_terminates_witness:
  "deflate_progress (toy_build True 3) toy_mu \<and> end_only_on_finish (toy_build True 3)
   \<and> zp (toy_context\<lparr>zp := Some \<lparr>next_in = [], next_out = [], avail_out = 3,
                                   zstate = ([1, 7, 1, 8, 1, 9], False)\<rparr>\<rparr>)
       = Some \<lparr>next_in = [], next_out = [], avail_out = 3, zstate = ([1, 7, 1, 8, 1, 9], False)\<rparr>
   \<and> 0 < avail_out \<lparr>next_in = [], next_out = [], avail_out = 3,
                     zstate = ([1, 7, 1, 8, 1, 9 :: byte], False)\<rparr>
   \<and> 0 < zlibOutSize (toy_context\<lparr>zp := Some \<lparr>next_in = [], next_out = [], avail_out = 3,
                                   zstate = ([1, 7, 1, 8, 1, 9], False)\<rparr>\<rparr>)
   \<and> DeflateCompressorZlib_loop (toy_build True 3)
        (toy_context\<lparr>zp := Some \<lparr>next_in = [], next_out = [], avail_out = 3,
                                   zstate = ([1, 7, 1, 8, 1, 9], False)\<rparr>\<rparr>)
        True \<lparr>next_in = [], next_out = [], avail_out = 3, zstate = ([1, 7, 1, 8, 1, 9], False)\<rparr>
        Z_OK toy_world
       = Some (Inr (\<lparr>next_in = [], next_out = [], avail_out = 3, zstate = ([], True)\<rparr>,
                    Z_STREAM_END,
                    \<lparr>AH = [[1, 7, 1], [8, 1, 9], [0]], heap = {Blk_cs, Blk_zp, Blk_zlibOut}\<rparr>))
   \<and> (\<exists>r. DeflateCompressorZlib (toy_build True 3)
        (toy_context\<lparr>zp := Some \<lparr>next_in = [], next_out = [], avail_out = 3,
                                   zstate = ([1, 7, 1, 8, 1, 9], False)\<rparr>\<rparr>)
        True toy_world = Some r)"
proof -
  let ?z = "\<lparr>next_in = [], next_out = [], avail_out = 3,
             zstate = ([1, 7, 1, 8, 1, 9 :: byte], False)\<rparr>"
  let ?cs = "toy_context\<lparr>zp := Some ?z\<rparr>"
  have a: "deflate_progress (toy_build True 3) toy_mu" by (rule toy_deflate_progress)
  have b: "end_only_on_finish (toy_build True 3)" by (rule toy_end_only_on_finish)
  have c: "zp ?cs = Some ?z" by simp
  have d: "0 < avail_out ?z" by simp
  have e: "0 < zlibOutSize ?cs" by (simp add: toy_context_def)
  have f: "DeflateCompressorZlib_loop (toy_build True 3) ?cs True ?z Z_OK toy_world
       = Some (Inr (\<lparr>next_in = [], next_out = [], avail_out = 3, zstate = ([], True)\<rparr>,
                    Z_STREAM_END,
                    \<lparr>AH = [[1, 7, 1], [8, 1, 9], [0]], heap = {Blk_cs, Blk_zp, Blk_zlibOut}\<rparr>))"
    by code_simp
  note t = deflate_loop_terminates [OF a b c d e, of True toy_world]
  from t have g: "\<exists>r. DeflateCompressorZlib (toy_build True 3) ?cs True toy_world = Some r"
    by (rule conjunct2)
  from a b c d e f g show ?thesis by (intro conjI)
qed

section \<open>The drain loop\<close>




















section \<open>Rejected hints\<close>

text \<open>
  Claim C7.  A compression hint that is not 0, not in 1..9 and not
  \<^verbatim>\<open>Z_DEFAULT_COMPRESSION\<close> makes \<^verbatim>\<open>AllocateCompressor\<close> and \<^verbatim>\<open>ReadDataFromArchive\<close>
  die with \<open>InvalidConfiguration\<close> in the very world they were called in: no block has
  been allocated, no context is returned, and the log kept by the callbacks has not
  grown, so none of \<^verbatim>\<open>writeF\<close>, \<^verbatim>\<open>readF\<close>, \<^verbatim>\<open>ahwrite\<close> has been called.
\<close>

theorem invalid_hint_rejected:
  assumes "hint \<noteq> 0" and "\<not> (1 \<le> hint \<and> hint \<le> 9)" and "hint \<noteq> Z_DEFAULT_COMPRESSION"
  shows "AllocateCompressor env hint (traced_writeF wF) w = Inl (InvalidConfiguration hint, w)
       \<and> ReadDataFromArchive env hint (traced_readF rF) (traced_ahwrite aw) w
           = Some (Inl (InvalidConfiguration hint, w))"
  using assms by (simp add: AllocateCompressor_def ReadDataFromArchive_def Parse_invalid)

theorem invalid_hint_rejected_witness:
  "(10::int) \<noteq> 0 \<and> \<not> (1 \<le> (10::int) \<and> (10::int) \<le> 9) \<and> 10 \<noteq> Z_DEFAULT_COMPRESSION
   \<and> AllocateCompressor (toy_build True 4) 10 (traced_writeF collect)
        \<lparr>AH = ([], []), heap = {}\<rparr>
       = Inl (InvalidConfiguration 10, \<lparr>AH = ([], []), heap = {}\<rparr>)
   \<and> ReadDataFromArchive (toy_build True 4) 10 (traced_readF feed) (traced_ahwrite deliver)
        \<lparr>AH = (([[1, 7, 0]], []), []), heap = {}\<rparr>
       = Some (Inl (InvalidConfiguration 10, \<lparr>AH = (([[1, 7, 0]], []), []), heap = {}\<rparr>))"
  using invalid_hint_rejected [of 10 "toy_build True 4" collect "\<lparr>AH = ([], []), heap = {}\<rparr>"]
    invalid_hint_rejected [of 10 "toy_build True 4" _
      "\<lparr>AH = (([[1, 7, 0]], []), []), heap = {}\<rparr>" feed deliver]
  by (simp add: Z_DEFAULT_COMPRESSION_def)

section \<open>The round trip\<close>

subsection \<open>Without compression\<close>

lemma WriteAll_none:
  assumes "comprAlg cs = COMPR_ALG_NONE" and "writeF cs = collect"
  shows "WriteAll env cs ds w = Some (Inr (cs, w\<lparr>AH := AH w @ ds\<rparr>))"
  using assms
proof (induction ds arbitrary: w)
  case Nil
  then show ?case by simp
next
  case (Cons d ds)
  have "WriteDataToArchive env cs d w = Some (Inr (length d, cs, w\<lparr>AH := AH w @ [d]\<rparr>))"
    using Cons.prems by (simp add: WriteDataToArchive_def WriteDataToArchiveNone_def collect_def)
  with Cons.IH[OF Cons.prems, of "w\<lparr>AH := AH w @ [d]\<rparr>"] show ?case by simp
qed

lemma ReadDataFromArchiveNone_loop_feed:
  assumes "[] \<notin> set chunks"
  shows "ReadDataFromArchiveNone_loop feed deliver buflen (w\<lparr>AH := (chunks, acc)\<rparr>)
           = Some (w\<lparr>AH := ([], acc @ concat chunks)\<rparr>)"
  using assms
proof (induction chunks arbitrary: buflen acc)
  case Nil
  show ?case
    by (subst ReadDataFromArchiveNone_loop.simps) (simp add: feed_def)
next
  case (Cons c chunks)
  from Cons.prems have c: "c \<noteq> []" and rest: "[] \<notin> set chunks" by auto
  have "ReadDataFromArchiveNone_loop feed deliver buflen (w\<lparr>AH := (c # chunks, acc)\<rparr>)
      = ReadDataFromArchiveNone_loop feed deliver (max buflen (length c))
          (w\<lparr>AH := (chunks, acc @ c)\<rparr>)"
    using c by (subst ReadDataFromArchiveNone_loop.simps) (simp add: feed_def deliver_def)
  with Cons.IH[OF rest, of "max buflen (length c)" "acc @ c"] show ?case by simp
qed

lemma none_session_read_back:
  assumes "[] \<notin> set ds" and "malloc_ok env Blk_cs" and "malloc_ok env Blk_read_buf"
  shows "WriteSession env 0 collect ds \<lparr>AH = [], heap = {}\<rparr>
           = Some (Inr \<lparr>AH = ds, heap = {}\<rparr>)
       \<and> ReadDataFromArchive env 0 feed deliver \<lparr>AH = (ds, []), heap = {}\<rparr>
           = Some (Inr \<lparr>AH = ([], concat ds), heap = {}\<rparr>)"
proof
  let ?cs = "\<lparr>writeF = collect, comprAlg = COMPR_ALG_NONE, zp = None, zlibOutSize = 0\<rparr>
      :: (byte list list, 'a) CompressorState"
  have a: "AllocateCompressor env 0 collect \<lparr>AH = [], heap = {}\<rparr>
      = Inr (?cs, \<lparr>AH = [], heap = {Blk_cs}\<rparr>)"
    using assms(2) by (simp add: AllocateCompressor_def Parse_none malloc_def)
  have b: "WriteAll env ?cs ds \<lparr>AH = [], heap = {Blk_cs}\<rparr>
      = Some (Inr (?cs, \<lparr>AH = ds, heap = {Blk_cs}\<rparr>))"
    using WriteAll_none[of ?cs env ds "\<lparr>AH = [], heap = {Blk_cs}\<rparr>"] by simp
  have c: "EndCompressor env ?cs \<lparr>AH = ds, heap = {Blk_cs}\<rparr>
      = Some (Inr \<lparr>AH = ds, heap = {}\<rparr>)"
    by (simp add: EndCompressor_def free_def)
  from a b c show "WriteSession env 0 collect ds \<lparr>AH = [], heap = {}\<rparr>
           = Some (Inr \<lparr>AH = ds, heap = {}\<rparr>)"
    by (simp add: WriteSession_def)
  have "ReadDataFromArchiveNone_loop feed deliver (ZLIB_OUT_SIZE env)
      (\<lparr>AH = (ds, []), heap = {Blk_read_buf}\<rparr>\<lparr>AH := (ds, [])\<rparr>)
      = Some (\<lparr>AH = (ds, []), heap = {Blk_read_buf}\<rparr>\<lparr>AH := ([], [] @ concat ds)\<rparr>)"
    using assms(1) by (rule ReadDataFromArchiveNone_loop_feed)
  then show "ReadDataFromArchive env 0 feed deliver \<lparr>AH = (ds, []), heap = {}\<rparr>
           = Some (Inr \<lparr>AH = ([], concat ds), heap = {}\<rparr>)"
    using assms(3)
    by (simp add: ReadDataFromArchive_def Parse_none ReadDataFromArchiveNone_def malloc_def
        free_def)
qed

subsection \<open>With zlib: the write session\<close>

lemma DeflateCompressorZlib_body_collect:
  assumes d: "deflate env z (if flush then Z_FINISH else Z_NO_FLUSH) = (r, z')"
    and r: "r \<noteq> Z_STREAM_ERROR"
    and wf: "writeF cs = collect"
    and acc: "accounted (zlibOutSize cs) z'"
    and cap: "0 < zlibOutSize cs"
    and ne: "[] \<notin> set (AH w)"
    and bd: "\<forall>c\<in>set (AH w). length c \<le> zlibOutSize cs"
  shows "\<exists>z1 w1. DeflateCompressorZlib_body env cs flush z w = Inr (z1, r, w1)
           \<and> next_in z1 = next_in z' \<and> zstate z1 = zstate z'
           \<and> accounted (zlibOutSize cs) z1 \<and> 0 < avail_out z1
           \<and> concat (AH w1) @ next_out z1 = concat (AH w) @ next_out z'
           \<and> [] \<notin> set (AH w1) \<and> heap w1 = heap w
           \<and> (flush \<longrightarrow> next_out z1 = [])
           \<and> (\<forall>c\<in>set (AH w1). length c \<le> zlibOutSize cs)"
proof -
  from acc have len: "length (next_out z') + avail_out z' = zlibOutSize cs"
    by (simp add: accounted_def)
  show ?thesis
  proof (cases "(flush \<and> avail_out z' < zlibOutSize cs) \<or> avail_out z' = 0 \<or> avail_in z' \<noteq> 0")
    case False
    with d r have "DeflateCompressorZlib_body env cs flush z w = Inr (z', r, w)"
      by (auto simp add: DeflateCompressorZlib_body_def)
    moreover have "flush \<longrightarrow> next_out z' = []"
    proof
      assume flush
      with False have "\<not> avail_out z' < zlibOutSize cs" by simp
      with len have "length (next_out z') = 0" by arith
      then show "next_out z' = []" by simp
    qed
    ultimately show ?thesis using False acc ne bd by simp
  next
    case True
    show ?thesis
    proof (cases "avail_out z' < zlibOutSize cs")
      case False
      with len have "length (next_out z') = 0" by arith
      then have e: "next_out z' = []" by simp
      from d r True False
      have "DeflateCompressorZlib_body env cs flush z w
          = Inr (z'\<lparr>next_out := [], avail_out := zlibOutSize cs\<rparr>, r, w)"
        by (auto simp add: DeflateCompressorZlib_body_def)
      with e cap ne bd show ?thesis by (simp add: accounted_def)
    next
      case lt: True
      with len have t: "take (zlibOutSize cs - avail_out z') (next_out z') = next_out z'"
        and n: "next_out z' \<noteq> []" and l: "length (next_out z') = zlibOutSize cs - avail_out z'"
        by auto
      from d r True lt wf t l
      have "DeflateCompressorZlib_body env cs flush z w
          = Inr (z'\<lparr>next_out := [], avail_out := zlibOutSize cs\<rparr>, r,
                 w\<lparr>AH := AH w @ [next_out z']\<rparr>)"
        by (auto simp add: DeflateCompressorZlib_body_def collect_def Let_def)
      with n cap ne bd l show ?thesis by (simp add: accounted_def)
    qed
  qed
qed


lemma lossless_deflateInit:
  assumes "lossless_codec env valid Cinv \<mu> Dinv \<nu>" and "1 \<le> level" and "level \<le> 9"
  shows "fst (zlib_deflateInit env level) = Z_OK"
    and "Cinv False (snd (zlib_deflateInit env level)) [] []"
proof -
  from assms(1) have "\<forall>level. 1 \<le> level \<and> level \<le> 9 \<longrightarrow>
        fst (zlib_deflateInit env level) = Z_OK
          \<and> Cinv False (snd (zlib_deflateInit env level)) [] []"
    unfolding lossless_codec_def by (elim conjE)
  with assms(2,3) show "fst (zlib_deflateInit env level) = Z_OK"
    and "Cinv False (snd (zlib_deflateInit env level)) [] []" by blast+
qed

lemma lossless_no_flush:
  assumes "lossless_codec env valid Cinv \<mu> Dinv \<nu>"
    and "Cinv False s S C" and "inp \<noteq> []" and "0 < ao"
    and "zlib_deflate env s inp ao Z_NO_FLUSH = (r, s1, n, out)"
  shows "(r = Z_OK \<or> r = Z_BUF_ERROR) \<and> n \<le> length inp \<and> length out \<le> ao
       \<and> Cinv False s1 (S @ take n inp) (C @ out) \<and> (0 < n \<or> \<mu> s1 < \<mu> s)"
proof -
  from assms(1) have "\<forall>s S C inp ao r s1 n out.
        Cinv False s S C \<and> inp \<noteq> [] \<and> 0 < ao
          \<and> zlib_deflate env s inp ao Z_NO_FLUSH = (r, s1, n, out)
        \<longrightarrow> (r = Z_OK \<or> r = Z_BUF_ERROR) \<and> n \<le> length inp \<and> length out \<le> ao
            \<and> Cinv False s1 (S @ take n inp) (C @ out) \<and> (0 < n \<or> \<mu> s1 < \<mu> s)"
    unfolding lossless_codec_def by (elim conjE)
  with assms(2-5) show ?thesis by blast
qed

lemma lossless_finish:
  assumes "lossless_codec env valid Cinv \<mu> Dinv \<nu>"
    and "Cinv fin s S C" and "0 < ao"
    and "zlib_deflate env s [] ao Z_FINISH = (r, s1, n, out)"
  shows "length out \<le> ao
       \<and> (r = Z_STREAM_END \<and> valid (C @ out) S \<and> zlib_deflateEnd env s1 = Z_OK
          \<or> (r = Z_OK \<or> r = Z_BUF_ERROR) \<and> Cinv True s1 S (C @ out) \<and> \<mu> s1 < \<mu> s)"
proof -
  from assms(1) have "\<forall>fin s S C ao r s1 n out.
        Cinv fin s S C \<and> 0 < ao \<and> zlib_deflate env s [] ao Z_FINISH = (r, s1, n, out)
        \<longrightarrow> length out \<le> ao
            \<and> (r = Z_STREAM_END \<and> valid (C @ out) S \<and> zlib_deflateEnd env s1 = Z_OK
               \<or> (r = Z_OK \<or> r = Z_BUF_ERROR) \<and> Cinv True s1 S (C @ out) \<and> \<mu> s1 < \<mu> s)"
    unfolding lossless_codec_def by (elim conjE)
  with assms(2-4) show ?thesis by blast
qed

lemma lossless_inflateInit:
  assumes "lossless_codec env valid Cinv \<mu> Dinv \<nu>"
  shows "fst (zlib_inflateInit env) = Z_OK" and "Dinv (snd (zlib_inflateInit env)) [] []"
proof -
  from assms have "fst (zlib_inflateInit env) = Z_OK \<and> Dinv (snd (zlib_inflateInit env)) [] []"
    unfolding lossless_codec_def by (elim conjE) (intro conjI)
  then show "fst (zlib_inflateInit env) = Z_OK" and "Dinv (snd (zlib_inflateInit env)) [] []"
    by simp_all
qed

lemma lossless_inflate:
  assumes "lossless_codec env valid Cinv \<mu> Dinv \<nu>"
    and "valid C S" and "Dinv d Cc Sc" and "prefix (Cc @ inp) C" and "0 < ao"
    and "inp \<noteq> [] \<or> Cc = C"
    and "zlib_inflate env d inp ao = (r, d1, n, out)"
  shows "n \<le> length inp \<and> length out \<le> ao
       \<and> (r = Z_OK \<and> Dinv d1 (Cc @ take n inp) (Sc @ out) \<and> (0 < n \<or> \<nu> d1 < \<nu> d)
          \<or> r = Z_STREAM_END \<and> n = length inp \<and> Cc @ inp = C \<and> Sc @ out = S
              \<and> zlib_inflateEnd env d1 = Z_OK)"
proof -
  from assms(1) have "\<forall>C S d Cc Sc inp ao r d1 n out.
        valid C S \<and> Dinv d Cc Sc \<and> prefix (Cc @ inp) C \<and> 0 < ao \<and> (inp \<noteq> [] \<or> Cc = C)
          \<and> zlib_inflate env d inp ao = (r, d1, n, out)
        \<longrightarrow> n \<le> length inp \<and> length out \<le> ao
            \<and> (r = Z_OK \<and> Dinv d1 (Cc @ take n inp) (Sc @ out) \<and> (0 < n \<or> \<nu> d1 < \<nu> d)
               \<or> r = Z_STREAM_END \<and> n = length inp \<and> Cc @ inp = C \<and> Sc @ out = S
                   \<and> zlib_inflateEnd env d1 = Z_OK)"
    unfolding lossless_codec_def by (elim conjE)
  with assms(2-7) show ?thesis by blast
qed

lemma deflate_within:
  assumes "zlib_deflate env (zstate z) (next_in z) (avail_out z) fl = (r, s, n, out)"
    and "n \<le> length (next_in z)" and "length out \<le> avail_out z"
  shows "deflate env z fl =
     (r, z\<lparr>next_in := drop n (next_in z), next_out := next_out z @ out,
           avail_out := avail_out z - length out, zstate := s\<rparr>)"
  using assms by (simp add: deflate_def avail_in_def min_absorb1)

lemma no_flush_step:
  assumes L: "lossless_codec env valid Cinv \<mu> Dinv \<nu>"
    and wf: "writeF cs = collect"
    and st: "write_state Cinv False (zlibOutSize cs) z w S"
    and inp: "next_in z \<noteq> []"
  shows "\<exists>z1 res1 w1 n. DeflateCompressorZlib_body env cs False z w = Inr (z1, res1, w1)
           \<and> res1 \<noteq> Z_STREAM_END \<and> n \<le> length (next_in z)
           \<and> next_in z1 = drop n (next_in z)
           \<and> write_state Cinv False (zlibOutSize cs) z1 w1 (S @ take n (next_in z))
           \<and> heap w1 = heap w \<and> (0 < n \<or> \<mu> (zstate z1) < \<mu> (zstate z))"
proof -
  from st have cinv: "Cinv False (zstate z) S (concat (AH w) @ next_out z)"
    and acc: "accounted (zlibOutSize cs) z" and ao: "0 < avail_out z" and ne: "[] \<notin> set (AH w)"
    and bd: "\<forall>c\<in>set (AH w). length c \<le> zlibOutSize cs"
    by (simp_all add: write_state_def)
  from acc ao have cap: "0 < zlibOutSize cs" by (simp add: accounted_def)
  obtain r s n out where
    c: "zlib_deflate env (zstate z) (next_in z) (avail_out z) Z_NO_FLUSH = (r, s, n, out)"
    by (cases "zlib_deflate env (zstate z) (next_in z) (avail_out z) Z_NO_FLUSH") auto
  from lossless_no_flush[OF L cinv inp ao c]
  have r: "r = Z_OK \<or> r = Z_BUF_ERROR" and n: "n \<le> length (next_in z)"
    and out: "length out \<le> avail_out z"
    and cinv': "Cinv False s (S @ take n (next_in z)) ((concat (AH w) @ next_out z) @ out)"
    and prog: "0 < n \<or> \<mu> s < \<mu> (zstate z)" by simp_all
  let ?z' = "z\<lparr>next_in := drop n (next_in z), next_out := next_out z @ out,
           avail_out := avail_out z - length out, zstate := s\<rparr>"
  have d: "deflate env z (if False then Z_FINISH else Z_NO_FLUSH) = (r, ?z')"
    using deflate_within[OF c n out] by simp
  have acc': "accounted (zlibOutSize cs) ?z'" using acc out by (simp add: accounted_def)
  from r have r': "r \<noteq> Z_STREAM_ERROR" by auto
  from DeflateCompressorZlib_body_collect[OF d r' wf acc' cap ne bd]
  obtain z1 w1 where b: "DeflateCompressorZlib_body env cs False z w = Inr (z1, r, w1)"
    and z1: "next_in z1 = next_in ?z'" "zstate z1 = zstate ?z'"
      "accounted (zlibOutSize cs) z1" "0 < avail_out z1"
      "concat (AH w1) @ next_out z1 = concat (AH w) @ next_out ?z'"
      "[] \<notin> set (AH w1)" "heap w1 = heap w"
    and b1: "\<forall>c\<in>set (AH w1). length c \<le> zlibOutSize cs"
    by blast
  from cinv' z1(1-6) b1
  have "write_state Cinv False (zlibOutSize cs) z1 w1 (S @ take n (next_in z))"
    by (simp add: write_state_def)
  with b r n z1 prog show ?thesis
    by (intro exI[of _ z1] exI[of _ r] exI[of _ w1] exI[of _ n]) auto
qed

lemma no_flush_loop:
  assumes L: "lossless_codec env valid Cinv \<mu> Dinv \<nu>"
    and wf: "writeF cs = collect"
    and st: "write_state Cinv False (zlibOutSize cs) z w S"
  shows "\<exists>z1 res1 w1. DeflateCompressorZlib_loop env cs False z res w = Some (Inr (z1, res1, w1))
           \<and> next_in z1 = []
           \<and> write_state Cinv False (zlibOutSize cs) z1 w1 (S @ next_in z)
           \<and> heap w1 = heap w"
proof -
  define R where
    "R = inv_image (less_than <*lex*> less_than) (\<lambda>z :: 'a z_stream. (avail_in z, \<mu> (zstate z)))"
  have "wf R" unfolding R_def by (intro wf_inv_image wf_lex_prod wf_less_than)
  then show ?thesis using st
  proof (induction z arbitrary: res w S rule: wf_induct_rule)
    case (less z)
    show ?case
    proof (cases "next_in z = []")
      case True
      with less.prems show ?thesis
        by (subst DeflateCompressorZlib_loop.simps) (simp add: avail_in_def)
    next
      case False
      from no_flush_step[OF L wf less.prems False]
      obtain z1 res1 w1 n where
        b: "DeflateCompressorZlib_body env cs False z w = Inr (z1, res1, w1)"
        and r: "res1 \<noteq> Z_STREAM_END" and n: "n \<le> length (next_in z)"
        and i: "next_in z1 = drop n (next_in z)"
        and s: "write_state Cinv False (zlibOutSize cs) z1 w1 (S @ take n (next_in z))"
        and h: "heap w1 = heap w" and p: "0 < n \<or> \<mu> (zstate z1) < \<mu> (zstate z)"
        by blast
      from False n i p have dec: "(z1, z) \<in> R"
        by (auto simp add: R_def avail_in_def)
      from less.IH[OF dec s, of res1]
      obtain z2 res2 w2 where
        l: "DeflateCompressorZlib_loop env cs False z1 res1 w1 = Some (Inr (z2, res2, w2))"
        and e: "next_in z2 = []"
        and s2: "write_state Cinv False (zlibOutSize cs) z2 w2
                   ((S @ take n (next_in z)) @ next_in z1)"
        and h2: "heap w2 = heap w1"
        by blast
      from i have "(S @ take n (next_in z)) @ next_in z1 = S @ next_in z" by simp
      with s2 have s2': "write_state Cinv False (zlibOutSize cs) z2 w2 (S @ next_in z)" by simp
      have "DeflateCompressorZlib_loop env cs False z res w
          = DeflateCompressorZlib_loop env cs False z1 res1 w1"
        using False b r by (subst DeflateCompressorZlib_loop.simps) (simp add: avail_in_def)
      with l e s2' h h2 show ?thesis by simp
    qed
  qed
qed


lemma finish_step:
  assumes L: "lossless_codec env valid Cinv \<mu> Dinv \<nu>"
    and wf: "writeF cs = collect"
    and st: "write_state Cinv fin (zlibOutSize cs) z w S"
    and inp: "next_in z = []"
  shows "\<exists>z1 res1 w1. DeflateCompressorZlib_body env cs True z w = Inr (z1, res1, w1)
           \<and> heap w1 = heap w \<and> [] \<notin> set (AH w1)
           \<and> (\<forall>c\<in>set (AH w1). length c \<le> zlibOutSize cs)
           \<and> (if res1 = Z_STREAM_END
               then valid (concat (AH w1)) S \<and> zlib_deflateEnd env (zstate z1) = Z_OK
               else next_in z1 = [] \<and> write_state Cinv True (zlibOutSize cs) z1 w1 S
                    \<and> \<mu> (zstate z1) < \<mu> (zstate z))"
proof -
  from st have cinv: "Cinv fin (zstate z) S (concat (AH w) @ next_out z)"
    and acc: "accounted (zlibOutSize cs) z" and ao: "0 < avail_out z" and ne: "[] \<notin> set (AH w)"
    and bd: "\<forall>c\<in>set (AH w). length c \<le> zlibOutSize cs"
    by (simp_all add: write_state_def)
  from acc ao have cap: "0 < zlibOutSize cs" by (simp add: accounted_def)
  obtain r s n out where
    c: "zlib_deflate env (zstate z) (next_in z) (avail_out z) Z_FINISH = (r, s, n, out)"
    by (cases "zlib_deflate env (zstate z) (next_in z) (avail_out z) Z_FINISH") auto
  from lossless_finish[OF L cinv ao c[unfolded inp]]
  have out: "length out \<le> avail_out z"
    and alt: "r = Z_STREAM_END \<and> valid ((concat (AH w) @ next_out z) @ out) S
                \<and> zlib_deflateEnd env s = Z_OK
              \<or> (r = Z_OK \<or> r = Z_BUF_ERROR)
                \<and> Cinv True s S ((concat (AH w) @ next_out z) @ out) \<and> \<mu> s < \<mu> (zstate z)"
    by simp_all
  let ?z' = "z\<lparr>next_in := [], next_out := next_out z @ out,
           avail_out := avail_out z - length out, zstate := s\<rparr>"
  have d: "deflate env z (if True then Z_FINISH else Z_NO_FLUSH) = (r, ?z')"
    using c[unfolded inp] out by (simp add: deflate_def avail_in_def inp)
  have acc': "accounted (zlibOutSize cs) ?z'" using acc out by (simp add: accounted_def)
  from alt have r': "r \<noteq> Z_STREAM_ERROR" by auto
  from DeflateCompressorZlib_body_collect[OF d r' wf acc' cap ne bd]
  obtain z1 w1 where b: "DeflateCompressorZlib_body env cs True z w = Inr (z1, r, w1)"
    and z1: "next_in z1 = next_in ?z'" "zstate z1 = zstate ?z'"
      "accounted (zlibOutSize cs) z1" "0 < avail_out z1"
      "concat (AH w1) @ next_out z1 = concat (AH w) @ next_out ?z'"
      "[] \<notin> set (AH w1)" and h: "heap w1 = heap w" and e: "next_out z1 = []"
    and b1: "\<forall>c\<in>set (AH w1). length c \<le> zlibOutSize cs"
    by blast
  from z1(5) e have cc: "(concat (AH w) @ next_out z) @ out = concat (AH w1)" by simp
  from alt show ?thesis
  proof
    assume "r = Z_STREAM_END \<and> valid ((concat (AH w) @ next_out z) @ out) S
                \<and> zlib_deflateEnd env s = Z_OK"
    with b z1 h cc b1 show ?thesis
      by (intro exI[of _ z1] exI[of _ r] exI[of _ w1]) simp
  next
    assume a: "(r = Z_OK \<or> r = Z_BUF_ERROR)
                \<and> Cinv True s S ((concat (AH w) @ next_out z) @ out) \<and> \<mu> s < \<mu> (zstate z)"
    then have "write_state Cinv True (zlibOutSize cs) z1 w1 S"
      using z1 e cc b1 by (simp add: write_state_def)
    with a b z1 h inp b1 show ?thesis
      by (intro exI[of _ z1] exI[of _ r] exI[of _ w1]) auto
  qed
qed

lemma finish_loop:
  assumes L: "lossless_codec env valid Cinv \<mu> Dinv \<nu>"
    and wf: "writeF cs = collect"
    and st: "write_state Cinv fin (zlibOutSize cs) z w S"
    and inp: "next_in z = []"
  shows "\<exists>z1 w1. DeflateCompressorZlib_loop env cs True z res w
             = Some (Inr (z1, Z_STREAM_END, w1))
           \<and> valid (concat (AH w1)) S \<and> [] \<notin> set (AH w1)
           \<and> zlib_deflateEnd env (zstate z1) = Z_OK \<and> heap w1 = heap w
           \<and> (\<forall>c\<in>set (AH w1). length c \<le> zlibOutSize cs)"
  using st inp
proof (induction "\<mu> (zstate z)" arbitrary: z res w fin rule: less_induct)
  case less
  from finish_step[OF L wf less.prems]
  obtain z1 res1 w1 where
    b: "DeflateCompressorZlib_body env cs True z w = Inr (z1, res1, w1)"
    and h: "heap w1 = heap w" and ne: "[] \<notin> set (AH w1)"
    and b1: "\<forall>c\<in>set (AH w1). length c \<le> zlibOutSize cs"
    and alt: "if res1 = Z_STREAM_END
               then valid (concat (AH w1)) S \<and> zlib_deflateEnd env (zstate z1) = Z_OK
               else next_in z1 = [] \<and> write_state Cinv True (zlibOutSize cs) z1 w1 S
                    \<and> \<mu> (zstate z1) < \<mu> (zstate z)"
    by blast
  show ?case
  proof (cases "res1 = Z_STREAM_END")
    case True
    with b have "DeflateCompressorZlib_loop env cs True z res w
        = Some (Inr (z1, Z_STREAM_END, w1))"
      by (subst DeflateCompressorZlib_loop.simps) simp
    with True alt h ne b1 show ?thesis by simp
  next
    case False
    with alt have i: "next_in z1 = []" and s: "write_state Cinv True (zlibOutSize cs) z1 w1 S"
      and m: "\<mu> (zstate z1) < \<mu> (zstate z)" by simp_all
    from less.hyps[OF m s i, of res1]
    obtain z2 w2 where
      l: "DeflateCompressorZlib_loop env cs True z1 res1 w1 = Some (Inr (z2, Z_STREAM_END, w2))"
      and r: "valid (concat (AH w2)) S" "[] \<notin> set (AH w2)"
        "zlib_deflateEnd env (zstate z2) = Z_OK" "heap w2 = heap w1"
        "\<forall>c\<in>set (AH w2). length c \<le> zlibOutSize cs"
      by blast
    have "DeflateCompressorZlib_loop env cs True z res w
        = DeflateCompressorZlib_loop env cs True z1 res1 w1"
      using False b by (subst DeflateCompressorZlib_loop.simps) simp
    with l r h show ?thesis by simp
  qed
qed

lemma write_state_next_in [simp]:
  "write_state Cinv fin cap (z\<lparr>next_in := d\<rparr>) w S = write_state Cinv fin cap z w S"
  by (simp add: write_state_def accounted_def)

lemma WriteDataToArchive_deflate:
  assumes L: "lossless_codec env valid Cinv \<mu> Dinv \<nu>"
    and lz: "HAVE_LIBZ env"
    and ctx: "deflate_context Cinv cs w S"
    and len: "length d < 2 ^ 32"
  shows "\<exists>cs1 w1. WriteDataToArchive env cs d w = Some (Inr (length d, cs1, w1))
           \<and> deflate_context Cinv cs1 w1 (S @ d) \<and> heap w1 = heap w
           \<and> zlibOutSize cs1 = zlibOutSize cs"
proof -
  from len have td: "take (uInt (length d)) d = d" by (rule take_uInt_small)
  from ctx obtain z where alg: "comprAlg cs = COMPR_ALG_LIBZ" and wf: "writeF cs = collect"
    and z: "zp cs = Some z" and st: "write_state Cinv False (zlibOutSize cs) z w S"
    by (auto simp add: deflate_context_def)
  let ?cs = "cs\<lparr>zp := Some (z\<lparr>next_in := d\<rparr>)\<rparr>"
  have wf': "writeF ?cs = collect" using wf by simp
  have st': "write_state Cinv False (zlibOutSize ?cs) (z\<lparr>next_in := d\<rparr>) w S" using st by simp
  from no_flush_loop[OF L wf' st', of Z_OK]
  obtain z1 res1 w1 where
    l: "DeflateCompressorZlib_loop env ?cs False (z\<lparr>next_in := d\<rparr>) Z_OK w
          = Some (Inr (z1, res1, w1))"
    and s1: "write_state Cinv False (zlibOutSize ?cs) z1 w1 (S @ next_in (z\<lparr>next_in := d\<rparr>))"
    and h: "heap w1 = heap w"
    by blast
  from l have "DeflateCompressorZlib env ?cs False w = Some (Inr (?cs\<lparr>zp := Some z1\<rparr>, w1))"
    by (simp add: DeflateCompressorZlib_def)
  with alg lz z have "WriteDataToArchive env cs d w
      = Some (Inr (length d, ?cs\<lparr>zp := Some z1\<rparr>, w1))"
    by (simp add: WriteDataToArchive_def WriteDataToArchiveZlib_def td)
  moreover from alg wf s1 have "deflate_context Cinv (?cs\<lparr>zp := Some z1\<rparr>) w1 (S @ d)"
    by (simp add: deflate_context_def)
  moreover have "zlibOutSize (?cs\<lparr>zp := Some z1\<rparr>) = zlibOutSize cs" by simp
  ultimately show ?thesis using h by blast
qed

lemma WriteAll_deflate:
  assumes L: "lossless_codec env valid Cinv \<mu> Dinv \<nu>"
    and lz: "HAVE_LIBZ env"
    and ctx: "deflate_context Cinv cs w S"
    and len: "\<forall>d\<in>set ds. length d < 2 ^ 32"
  shows "\<exists>cs1 w1. WriteAll env cs ds w = Some (Inr (cs1, w1))
           \<and> deflate_context Cinv cs1 w1 (S @ concat ds) \<and> heap w1 = heap w
           \<and> zlibOutSize cs1 = zlibOutSize cs"
  using ctx len
proof (induction ds arbitrary: cs w S)
  case Nil
  then show ?case by simp
next
  case (Cons d ds)
  from Cons.prems(2) have ld: "length d < 2 ^ 32" and lds: "\<forall>d\<in>set ds. length d < 2 ^ 32"
    by simp_all
  from WriteDataToArchive_deflate[OF L lz Cons.prems(1) ld]
  obtain cs1 w1 where a: "WriteDataToArchive env cs d w = Some (Inr (length d, cs1, w1))"
    and c: "deflate_context Cinv cs1 w1 (S @ d)" and h: "heap w1 = heap w"
    and o: "zlibOutSize cs1 = zlibOutSize cs"
    by blast
  from Cons.IH[OF c lds] obtain cs2 w2 where b: "WriteAll env cs1 ds w1 = Some (Inr (cs2, w2))"
    and c2: "deflate_context Cinv cs2 w2 ((S @ d) @ concat ds)" and h2: "heap w2 = heap w1"
    and o2: "zlibOutSize cs2 = zlibOutSize cs1"
    by blast
  from a b c2 h h2 o o2 show ?case by simp
qed

lemma EndCompressor_deflate:
  assumes L: "lossless_codec env valid Cinv \<mu> Dinv \<nu>"
    and lz: "HAVE_LIBZ env"
    and ctx: "deflate_context Cinv cs w S"
  shows "\<exists>w1. EndCompressor env cs w = Some (Inr w1)
           \<and> valid (concat (AH w1)) S \<and> [] \<notin> set (AH w1)
           \<and> heap w1 = heap w - {Blk_zlibOut, Blk_zp, Blk_cs}
           \<and> (\<forall>c\<in>set (AH w1). length c \<le> zlibOutSize cs)"
proof -
  from ctx obtain z where alg: "comprAlg cs = COMPR_ALG_LIBZ" and wf: "writeF cs = collect"
    and z: "zp cs = Some z" and st: "write_state Cinv False (zlibOutSize cs) z w S"
    by (auto simp add: deflate_context_def)
  let ?cs = "cs\<lparr>zp := Some (z\<lparr>next_in := []\<rparr>)\<rparr>"
  have wf': "writeF ?cs = collect" using wf by simp
  have st': "write_state Cinv False (zlibOutSize ?cs) (z\<lparr>next_in := []\<rparr>) w S" using st by simp
  have i: "next_in (z\<lparr>next_in := []\<rparr>) = []" by simp
  from finish_loop[OF L wf' st' i, of Z_OK]
  obtain z1 w1 where
    l: "DeflateCompressorZlib_loop env ?cs True (z\<lparr>next_in := []\<rparr>) Z_OK w
          = Some (Inr (z1, Z_STREAM_END, w1))"
    and v: "valid (concat (AH w1)) S" "[] \<notin> set (AH w1)"
    and e: "zlib_deflateEnd env (zstate z1) = Z_OK" and h: "heap w1 = heap w"
    and b1: "\<forall>c\<in>set (AH w1). length c \<le> zlibOutSize ?cs"
    by blast
  from l have "DeflateCompressorZlib env ?cs True w = Some (Inr (?cs\<lparr>zp := Some z1\<rparr>, w1))"
    by (simp add: DeflateCompressorZlib_def)
  with z e have "EndCompressorZlib env cs w = Some (Inr (free Blk_zp (free Blk_zlibOut w1)))"
    by (simp add: EndCompressorZlib_def)
  with alg lz have "EndCompressor env cs w
      = Some (Inr (free Blk_cs (free Blk_zp (free Blk_zlibOut w1))))"
    by (simp add: EndCompressor_def)
  with v h b1 show ?thesis by (auto simp add: free_def)
qed

lemma write_session_deflate:
  assumes L: "lossless_codec env valid Cinv \<mu> Dinv \<nu>"
    and lz: "HAVE_LIBZ env" and cap: "0 < ZLIB_OUT_SIZE env"
    and mem: "malloc_ok env Blk_cs" "malloc_ok env Blk_zp" "malloc_ok env Blk_zlibOut"
    and hint: "1 \<le> hint" "hint \<le> 9"
    and len: "\<forall>d\<in>set ds. length d < 2 ^ 32"
  shows "\<exists>chunks. WriteSession env hint collect ds \<lparr>AH = [], heap = {}\<rparr>
             = Some (Inr \<lparr>AH = chunks, heap = {}\<rparr>)
           \<and> valid (concat chunks) (concat ds) \<and> [] \<notin> set chunks
           \<and> (\<forall>c\<in>set chunks. length c \<le> ZLIB_OUT_SIZE env)"
proof -
  let ?z0 = "\<lparr>next_in = [], next_out = [], avail_out = ZLIB_OUT_SIZE env,
              zstate = snd (zlib_deflateInit env hint)\<rparr>"
  let ?cs = "\<lparr>writeF = collect, comprAlg = COMPR_ALG_LIBZ, zp = Some ?z0,
              zlibOutSize = ZLIB_OUT_SIZE env\<rparr>"
  let ?w0 = "\<lparr>AH = [] :: byte list list, heap = {Blk_zlibOut, Blk_zp, Blk_cs}\<rparr>"
  from hint have p: "ParseCompressionOption hint \<lparr>AH = [] :: byte list list, heap = {}\<rparr>
      = Inr (COMPR_ALG_LIBZ, hint)" by (intro Parse_libz) simp
  from lossless_deflateInit[OF L hint] obtain s where
    di: "zlib_deflateInit env hint = (Z_OK, s)" and ci: "Cinv False s [] []"
    by (cases "zlib_deflateInit env hint") auto
  from p lz mem di have a: "AllocateCompressor env hint collect \<lparr>AH = [], heap = {}\<rparr>
      = Inr (?cs, ?w0)"
    by (simp add: AllocateCompressor_def InitCompressorZlib_def malloc_def)
  from ci di cap have ctx: "deflate_context Cinv ?cs ?w0 []"
    by (simp add: deflate_context_def write_state_def accounted_def)
  from WriteAll_deflate[OF L lz ctx len] obtain cs1 w1 where
    b: "WriteAll env ?cs ds ?w0 = Some (Inr (cs1, w1))"
    and c1: "deflate_context Cinv cs1 w1 ([] @ concat ds)" and h1: "heap w1 = heap ?w0"
    and o1: "zlibOutSize cs1 = zlibOutSize ?cs"
    by blast
  from EndCompressor_deflate[OF L lz c1] o1 obtain w2 where
    e: "EndCompressor env cs1 w1 = Some (Inr w2)"
    and v: "valid (concat (AH w2)) ([] @ concat ds)" "[] \<notin> set (AH w2)"
      "\<forall>c\<in>set (AH w2). length c \<le> ZLIB_OUT_SIZE env"
    and h2: "heap w2 = heap w1 - {Blk_zlibOut, Blk_zp, Blk_cs}"
    by auto
  from h1 h2 have "w2 = \<lparr>AH = AH w2, heap = {}\<rparr>" by simp
  with a b e have "WriteSession env hint collect ds \<lparr>AH = [], heap = {}\<rparr>
      = Some (Inr \<lparr>AH = AH w2, heap = {}\<rparr>)"
    by (simp add: WriteSession_def)
  with v show ?thesis by auto
qed


subsection \<open>With zlib: reading back\<close>

lemma read_state_ended:
  assumes "read_state env Dinv C S z Z_STREAM_END w"
  shows "next_in z = []" and "fst (AH w) = []" and "snd (AH w) = S"
    and "zlib_inflateEnd env (zstate z) = Z_OK"
proof -
  from assms obtain Cc where a: "Cc @ next_in z @ concat (fst (AH w)) = C" "Cc = C"
    and b: "snd (AH w) = S" "zlib_inflateEnd env (zstate z) = Z_OK"
    and ne: "[] \<notin> set (fst (AH w))"
    by (auto simp add: read_state_def)
  from a have c: "next_in z = []" "concat (fst (AH w)) = []" by simp_all
  from c(2) ne have "fst (AH w) = []" by (cases "fst (AH w)") auto
  with b c show "next_in z = []" and "fst (AH w) = []" and "snd (AH w) = S"
    and "zlib_inflateEnd env (zstate z) = Z_OK" by simp_all
qed

lemma inflate_within:
  assumes "zlib_inflate env (zstate z) (next_in z) (avail_out z) = (r, d, n, out)"
    and "n \<le> length (next_in z)" and "length out \<le> avail_out z"
  shows "inflate env z =
     (r, z\<lparr>next_in := drop n (next_in z), next_out := next_out z @ out,
           avail_out := avail_out z - length out, zstate := d\<rparr>)"
  using assms by (simp add: inflate_def avail_in_def min_absorb1)

lemma read_step:
  assumes L: "lossless_codec env valid Cinv \<mu> Dinv \<nu>"
    and v: "valid C S" and cap: "0 < ZLIB_OUT_SIZE env"
    and st: "read_state env Dinv C S z res w"
    and live: "res \<noteq> Z_STREAM_END"
    and cond: "next_in z \<noteq> [] \<or> fst (AH w) = []"
  shows "\<exists>z1 res1 w1 n. inflate_and_forward env deliver z w = Inr (z1, res1, w1)
           \<and> read_state env Dinv C S z1 res1 w1
           \<and> n \<le> length (next_in z) \<and> next_in z1 = drop n (next_in z)
           \<and> fst (AH w1) = fst (AH w) \<and> heap w1 = heap w
           \<and> (res1 = Z_STREAM_END \<or> 0 < n \<or> \<nu> (zstate z1) < \<nu> (zstate z))"
proof -
  from st live obtain Cc where cc: "Cc @ next_in z @ concat (fst (AH w)) = C"
    and dinv: "Dinv (zstate z) Cc (snd (AH w))" and ne: "[] \<notin> set (fst (AH w))"
    by (auto simp add: read_state_def)
  from cc have pre: "prefix (Cc @ next_in z) C" by (metis append.assoc prefixI)
  from cond cc have cond': "next_in z \<noteq> [] \<or> Cc = C" by auto
  let ?z = "z\<lparr>next_out := [], avail_out := ZLIB_OUT_SIZE env\<rparr>"
  obtain r d n out where
    c: "zlib_inflate env (zstate z) (next_in z) (ZLIB_OUT_SIZE env) = (r, d, n, out)"
    by (cases "zlib_inflate env (zstate z) (next_in z) (ZLIB_OUT_SIZE env)") auto
  from lossless_inflate[OF L v dinv pre cap cond' c]
  have n: "n \<le> length (next_in z)" and out: "length out \<le> ZLIB_OUT_SIZE env"
    and alt: "r = Z_OK \<and> Dinv d (Cc @ take n (next_in z)) (snd (AH w) @ out)
                \<and> (0 < n \<or> \<nu> d < \<nu> (zstate z))
              \<or> r = Z_STREAM_END \<and> n = length (next_in z) \<and> Cc @ next_in z = C
                \<and> snd (AH w) @ out = S \<and> zlib_inflateEnd env d = Z_OK"
    by simp_all
  let ?z1 = "z\<lparr>next_in := drop n (next_in z), next_out := out,
               avail_out := ZLIB_OUT_SIZE env - length out, zstate := d\<rparr>"
  let ?w1 = "w\<lparr>AH := (fst (AH w), snd (AH w) @ out)\<rparr>"
  have i: "inflate env ?z = (r, ?z1)"
    using inflate_within[of env ?z r d n out] c n out by simp
  from alt have ok: "r = Z_OK \<or> r = Z_STREAM_END" by auto
  with i have f: "inflate_and_forward env deliver z w = Inr (?z1, r, ?w1)"
    by (auto simp add: inflate_and_forward_eq deliver_def)
  have rs: "read_state env Dinv C S ?z1 r ?w1"
  proof (cases "r = Z_STREAM_END")
    case True
    with alt have e: "Cc @ next_in z = C" "n = length (next_in z)"
      "snd (AH w) @ out = S" "zlib_inflateEnd env d = Z_OK" by simp_all
    from cc have "(Cc @ next_in z) @ concat (fst (AH w)) = C" by (simp only: append_assoc)
    with e(1) have "C @ concat (fst (AH w)) = C" by (simp only:)
    then have "concat (fst (AH w)) = []" by (rule append_self_conv[THEN iffD1])
    with True e ne show ?thesis
      unfolding read_state_def
      by (intro conjI exI[of _ C]) (simp_all del: concat_eq_Nil_conv)

  next
    case False
    with alt have "Dinv d (Cc @ take n (next_in z)) (snd (AH w) @ out)" by simp
    moreover from cc have "(Cc @ take n (next_in z)) @ drop n (next_in z)
        @ concat (fst (AH w)) = C" by (metis append.assoc append_take_drop_id)
    ultimately show ?thesis using False ne
      unfolding read_state_def by (intro conjI exI[of _ "Cc @ take n (next_in z)"]) simp_all
  qed
  from alt have p: "r = Z_STREAM_END \<or> 0 < n \<or> \<nu> (zstate ?z1) < \<nu> (zstate z)" by auto
  from f rs n p show ?thesis
    by (intro exI[of _ ?z1] exI[of _ r] exI[of _ ?w1] exI[of _ n]) simp
qed

lemma inner_loop:
  assumes L: "lossless_codec env valid Cinv \<mu> Dinv \<nu>"
    and v: "valid C S" and cap: "0 < ZLIB_OUT_SIZE env"
    and st: "read_state env Dinv C S z res w"
  shows "\<exists>z1 res1 w1. ReadDataFromArchiveZlib_inner env deliver z res w
             = Some (Inr (z1, res1, w1))
           \<and> read_state env Dinv C S z1 res1 w1 \<and> next_in z1 = []
           \<and> fst (AH w1) = fst (AH w) \<and> heap w1 = heap w"
proof -
  define R where
    "R = inv_image (less_than <*lex*> less_than) (\<lambda>z :: 'b z_stream. (avail_in z, \<nu> (zstate z)))"
  have "wf R" unfolding R_def by (intro wf_inv_image wf_lex_prod wf_less_than)
  then show ?thesis using st
  proof (induction z arbitrary: res w rule: wf_induct_rule)
    case (less z)
    show ?case
    proof (cases "next_in z = []")
      case True
      with less.prems show ?thesis
        by (subst ReadDataFromArchiveZlib_inner.simps) (simp add: avail_in_def)
    next
      case False
      with read_state_ended(1)[of env Dinv C S z w] less.prems
      have live: "res \<noteq> Z_STREAM_END" by auto
      from False have cond: "next_in z \<noteq> [] \<or> fst (AH w) = []" by simp
      from read_step[OF L v cap less.prems live cond]
      obtain z1 res1 w1 n where
        f: "inflate_and_forward env deliver z w = Inr (z1, res1, w1)"
        and s: "read_state env Dinv C S z1 res1 w1"
        and n: "n \<le> length (next_in z)" and i: "next_in z1 = drop n (next_in z)"
        and a: "fst (AH w1) = fst (AH w)" and h: "heap w1 = heap w"
        and p: "res1 = Z_STREAM_END \<or> 0 < n \<or> \<nu> (zstate z1) < \<nu> (zstate z)"
        by blast
      have dec: "(z1, z) \<in> R"
      proof (cases "res1 = Z_STREAM_END")
        case True
        with s have "next_in z1 = []" by (auto dest: read_state_ended(1))
        with False show ?thesis by (simp add: R_def avail_in_def)
      next
        case no: False
        with p False n i show ?thesis by (auto simp add: R_def avail_in_def)
      qed
      from less.IH[OF dec s]
      obtain z2 res2 w2 where
        l: "ReadDataFromArchiveZlib_inner env deliver z1 res1 w1 = Some (Inr (z2, res2, w2))"
        and r: "read_state env Dinv C S z2 res2 w2" "next_in z2 = []"
          "fst (AH w2) = fst (AH w1)" "heap w2 = heap w1"
        by blast
      have "ReadDataFromArchiveZlib_inner env deliver z res w
          = ReadDataFromArchiveZlib_inner env deliver z1 res1 w1"
        using False f by (subst ReadDataFromArchiveZlib_inner.simps) (simp add: avail_in_def)
      with l r a h show ?thesis by simp
    qed
  qed
qed

lemma outer_loop:
  assumes L: "lossless_codec env valid Cinv \<mu> Dinv \<nu>"
    and v: "valid C S" and cap: "0 < ZLIB_OUT_SIZE env"
    and st: "read_state env Dinv C S z res w" and inp: "next_in z = []"
    and bd: "\<forall>c\<in>set (fst (AH w)). length c < 2 ^ 32"
  shows "\<exists>z1 res1 w1. ReadDataFromArchiveZlib_outer env feed deliver z res buflen w
             = Some (Inr (z1, res1, w1))
           \<and> read_state env Dinv C S z1 res1 w1 \<and> next_in z1 = []
           \<and> fst (AH w1) = [] \<and> heap w1 = heap w"
  using st inp bd
proof (induction "fst (AH w)" arbitrary: z res w buflen)
  case Nil
  then have "feed (AH w) buflen = (AH w, [], buflen)" by (simp add: feed_def)
  then have "ReadDataFromArchiveZlib_outer env feed deliver z res buflen w
      = Some (Inr (z, res, w))"
    by (subst ReadDataFromArchiveZlib_outer.simps) simp
  with Nil show ?case by simp
next
  case (Cons c rest)
  from Cons.hyps(2) have eq: "fst (AH w) = c # rest" by simp
  from eq have fd: "feed (AH w) buflen
      = ((rest, snd (AH w)), c, max buflen (length c))"
    by (simp add: feed_def)
  from Cons.prems(1) eq have c: "c \<noteq> []" and ne: "[] \<notin> set rest"
    by (auto simp add: read_state_def)
  from Cons.prems(3) eq have lc: "length c < 2 ^ 32" and lr: "\<forall>c\<in>set rest. length c < 2 ^ 32"
    by simp_all
  from lc have tc: "take (uInt (length c)) c = c" by (rule take_uInt_small)
  let ?z = "z\<lparr>next_in := c\<rparr>"
  let ?w = "w\<lparr>AH := (rest, snd (AH w))\<rparr>"
  have live: "res \<noteq> Z_STREAM_END"
    using read_state_ended(2)[of env Dinv C S z w] Cons.prems(1) eq by auto
  with Cons.prems eq ne have st': "read_state env Dinv C S ?z res ?w"
    by (auto simp add: read_state_def)
  from inner_loop[OF L v cap st']
  obtain z1 res1 w1 where
    i: "ReadDataFromArchiveZlib_inner env deliver ?z res ?w = Some (Inr (z1, res1, w1))"
    and s1: "read_state env Dinv C S z1 res1 w1" and n1: "next_in z1 = []"
    and a1: "fst (AH w1) = fst (AH ?w)" and h1: "heap w1 = heap ?w"
    by blast
  from a1 have r1: "rest = fst (AH w1)" by simp
  from lr r1 have lr1: "\<forall>c\<in>set (fst (AH w1)). length c < 2 ^ 32" by simp
  from Cons.hyps(1)[OF r1 s1 n1 lr1, of "max buflen (length c)"]
  obtain z2 res2 w2 where
    o: "ReadDataFromArchiveZlib_outer env feed deliver z1 res1 (max buflen (length c)) w1
          = Some (Inr (z2, res2, w2))"
    and r: "read_state env Dinv C S z2 res2 w2" "next_in z2 = []" "fst (AH w2) = []"
      "heap w2 = heap w1"
    by blast
  have "ReadDataFromArchiveZlib_outer env feed deliver z res buflen w
      = ReadDataFromArchiveZlib_outer env feed deliver z1 res1 (max buflen (length c)) w1"
    using fd c i by (subst ReadDataFromArchiveZlib_outer.simps) (simp add: tc)
  with o r h1 show ?case by simp
qed

lemma drain_loop:
  assumes L: "lossless_codec env valid Cinv \<mu> Dinv \<nu>"
    and v: "valid C S" and cap: "0 < ZLIB_OUT_SIZE env"
    and st: "read_state env Dinv C S z res w" and inp: "next_in z = []"
    and eof: "fst (AH w) = []"
  shows "\<exists>z1 w1. ReadDataFromArchiveZlib_drain env deliver z res w
             = Some (Inr (z1, Z_STREAM_END, w1))
           \<and> AH w1 = ([], S) \<and> zlib_inflateEnd env (zstate z1) = Z_OK \<and> heap w1 = heap w"
  using st inp eof
proof (induction "\<nu> (zstate z)" arbitrary: z res w rule: less_induct)
  case less
  have ended: "\<exists>z1 w1. ReadDataFromArchiveZlib_drain env deliver z' Z_STREAM_END w'
             = Some (Inr (z1, Z_STREAM_END, w1))
           \<and> AH w1 = ([], S) \<and> zlib_inflateEnd env (zstate z1) = Z_OK \<and> heap w1 = heap w'"
    if "read_state env Dinv C S z' Z_STREAM_END w'" for z' w'
  proof -
    from read_state_ended[OF that] have "AH w' = ([], S)"
      and "zlib_inflateEnd env (zstate z') = Z_OK"
      by (simp_all add: prod_eq_iff)
    moreover have "ReadDataFromArchiveZlib_drain env deliver z' Z_STREAM_END w'
        = Some (Inr (z', Z_STREAM_END, w'))"
      by (subst ReadDataFromArchiveZlib_drain.simps) simp
    ultimately show ?thesis by simp
  qed
  show ?case
  proof (cases "res = Z_STREAM_END")
    case True
    with less.prems(1) ended show ?thesis by simp
  next
    case False
    from less.prems(3) have cond: "next_in z \<noteq> [] \<or> fst (AH w) = []" by simp
    from read_step[OF L v cap less.prems(1) False cond]
    obtain z1 res1 w1 n where
      f: "inflate_and_forward env deliver z w = Inr (z1, res1, w1)"
      and s: "read_state env Dinv C S z1 res1 w1"
      and n: "n \<le> length (next_in z)" and i: "next_in z1 = drop n (next_in z)"
      and a: "fst (AH w1) = fst (AH w)" and h: "heap w1 = heap w"
      and p: "res1 = Z_STREAM_END \<or> 0 < n \<or> \<nu> (zstate z1) < \<nu> (zstate z)"
      by blast
    have unfold: "ReadDataFromArchiveZlib_drain env deliver z res w
        = ReadDataFromArchiveZlib_drain env deliver z1 res1 w1"
      using False f by (subst ReadDataFromArchiveZlib_drain.simps) simp
    show ?thesis
    proof (cases "res1 = Z_STREAM_END")
      case True
      with ended[of z1 w1] s unfold h show ?thesis by simp
    next
      case no: False
      with p n less.prems(2) have m: "\<nu> (zstate z1) < \<nu> (zstate z)" by simp
      from i less.prems(2) have i1: "next_in z1 = []" by simp
      from a less.prems(3) have a1: "fst (AH w1) = []" by simp
      from less.hyps[OF m s i1 a1] unfold h show ?thesis by simp
    qed
  qed
qed

lemma read_deflate:
  assumes L: "lossless_codec env valid Cinv \<mu> Dinv \<nu>"
    and v: "valid (concat chunks) S" and ne: "[] \<notin> set chunks"
    and bd: "\<forall>c\<in>set chunks. length c < 2 ^ 32"
    and lz: "HAVE_LIBZ env" and cap: "0 < ZLIB_OUT_SIZE env"
    and mem: "malloc_ok env Blk_read_zp" "malloc_ok env Blk_read_buf"
      "malloc_ok env Blk_read_out"
    and hint: "1 \<le> hint" "hint \<le> 9"
  shows "ReadDataFromArchive env hint feed deliver \<lparr>AH = (chunks, []), heap = {}\<rparr>
           = Some (Inr \<lparr>AH = ([], S), heap = {}\<rparr>)"
proof -
  let ?w = "\<lparr>AH = (chunks, [] :: byte list), heap = {}\<rparr>"
  let ?w3 = "\<lparr>AH = (chunks, [] :: byte list),
              heap = {Blk_read_out, Blk_read_buf, Blk_read_zp}\<rparr>"
  from lossless_inflateInit[OF L] obtain d where
    ii: "zlib_inflateInit env = (Z_OK, d)" and di: "Dinv d [] []"
    by (cases "zlib_inflateInit env") auto
  let ?z0 = "\<lparr>next_in = [], next_out = [], avail_out = 0, zstate = d\<rparr>"
  from di ne have st: "read_state env Dinv (concat chunks) S ?z0 Z_OK ?w3"
    by (simp add: read_state_def)
  have bd3: "\<forall>c\<in>set (fst (AH ?w3)). length c < 2 ^ 32" using bd by simp
  from outer_loop[OF L v cap st _ bd3, of "ZLIB_IN_SIZE env"]
  obtain z1 res1 w4 where
    o: "ReadDataFromArchiveZlib_outer env feed deliver ?z0 Z_OK (ZLIB_IN_SIZE env) ?w3
          = Some (Inr (z1, res1, w4))"
    and s1: "read_state env Dinv (concat chunks) S z1 res1 w4" and n1: "next_in z1 = []"
    and a1: "fst (AH w4) = []" and h1: "heap w4 = heap ?w3"
    by auto
  from n1 have same: "z1\<lparr>next_in := []\<rparr> = z1" by simp
  from drain_loop[OF L v cap s1 n1 a1]
  obtain z2 w5 where
    dr: "ReadDataFromArchiveZlib_drain env deliver z1 res1 w4
          = Some (Inr (z2, Z_STREAM_END, w5))"
    and r: "AH w5 = ([], S)" "zlib_inflateEnd env (zstate z2) = Z_OK" "heap w5 = heap w4"
    by blast
  from r h1 have fin: "free Blk_read_zp (free Blk_read_out (free Blk_read_buf w5))
      = \<lparr>AH = ([], S), heap = {}\<rparr>"
    by (cases w5) (auto simp add: free_def)
  from mem ii o dr same r(2) fin
  have "ReadDataFromArchiveZlib env feed deliver ?w = Some (Inr \<lparr>AH = ([], S), heap = {}\<rparr>)"
    by (simp add: ReadDataFromArchiveZlib_def malloc_def)
  moreover from hint have "ParseCompressionOption hint ?w = Inr (COMPR_ALG_LIBZ, hint)"
    by (intro Parse_libz) simp
  ultimately show ?thesis using lz by (simp add: ReadDataFromArchive_def)
qed


subsection \<open>The small codec meets the contract\<close>

lemma toy_encode_simps [simp]:
  "toy_encode [] = []"
  "toy_encode (b # S) = 1 # b # toy_encode S"
  "toy_encode (S @ T) = toy_encode S @ toy_encode T"
  by (simp_all add: toy_encode_def)

lemma toy_feed_queue:
  "foldl toy_feed (m, X @ q) inp
     = (fst (foldl toy_feed (m, q) inp), X @ snd (foldl toy_feed (m, q) inp))"
proof (induction inp arbitrary: m q)
  case Nil
  show ?case by simp
next
  case (Cons b inp)
  show ?case
  proof (cases m)
    case Tag
    with Cons.IH[of _ q] show ?thesis by simp
  next
    case Data
    with Cons.IH[of Tag "q @ [b]"] show ?thesis by simp
  next
    case Done
    with Cons.IH[of _ q] show ?thesis by simp
  next
    case Bad
    with Cons.IH[of _ q] show ?thesis by simp
  qed
qed

lemma toy_decode_prefix:
  assumes "prefix P (toy_encode S @ [0])"
  shows "fst (foldl toy_feed (Tag, []) P) \<noteq> Bad
       \<and> (fst (foldl toy_feed (Tag, []) P) = Done
            \<longleftrightarrow> P = toy_encode S @ [0])
       \<and> (P = toy_encode S @ [0] \<longrightarrow> snd (foldl toy_feed (Tag, []) P) = S)"
  using assms
proof (induction S arbitrary: P)
  case Nil
  then have "P = [] \<or> P = [0]" by (auto simp add: prefix_Cons)
  then show ?case by auto
next
  case (Cons b S)
  from Cons.prems have "P = [] \<or> P = [1] \<or> (\<exists>P'. P = 1 # b # P' \<and> prefix P' (toy_encode S @ [0]))"
    by (auto simp add: prefix_Cons)
  then show ?case
  proof (elim disjE exE conjE)
    assume "P = []"
    then show ?thesis by simp
  next
    assume "P = [1]"
    then show ?thesis by simp
  next
    fix P'
    assume P: "P = 1 # b # P'" and pre: "prefix P' (toy_encode S @ [0])"
    have "foldl toy_feed (Tag, []) P = foldl toy_feed (Tag, [b] @ []) P'"
      using P by simp
    also have "\<dots> = (fst (foldl toy_feed (Tag, []) P'), [b] @ snd (foldl toy_feed (Tag, []) P'))"
      by (rule toy_feed_queue)
    finally have e: "fst (foldl toy_feed (Tag, []) P) = fst (foldl toy_feed (Tag, []) P')"
      "snd (foldl toy_feed (Tag, []) P) = b # snd (foldl toy_feed (Tag, []) P')"
      by simp_all
    have w: "P = toy_encode (b # S) @ [0] \<longleftrightarrow> P' = toy_encode S @ [0]"
      using P by simp
    from Cons.IH[OF pre] show ?thesis
      unfolding e w by blast
  qed
qed

lemma toy_clause_init:
  "\<forall>level. 1 \<le> level \<and> level \<le> 9 \<longrightarrow>
        fst (zlib_deflateInit (toy_build have_libz n) level) = Z_OK
          \<and> toy_Cinv False (snd (zlib_deflateInit (toy_build have_libz n) level)) [] []"
  by (simp add: toy_build_def toy_deflateInit_def toy_Cinv_def)

lemma toy_clause_no_flush:
  "\<forall>s S C inp ao r s1 k out.
        toy_Cinv False s S C \<and> inp \<noteq> [] \<and> 0 < ao
          \<and> zlib_deflate (toy_build have_libz n) s inp ao Z_NO_FLUSH = (r, s1, k, out)
        \<longrightarrow> (r = Z_OK \<or> r = Z_BUF_ERROR) \<and> k \<le> length inp \<and> length out \<le> ao
            \<and> toy_Cinv False s1 (S @ take k inp) (C @ out) \<and> (0 < k \<or> toy_mu s1 < toy_mu s)"
proof (intro allI impI)
  fix s :: "byte list \<times> bool" and S C inp ao r s1 k out
  assume a: "toy_Cinv False s S C \<and> inp \<noteq> [] \<and> 0 < ao
      \<and> zlib_deflate (toy_build have_libz n) s inp ao Z_NO_FLUSH = (r, s1, k, out)"
  let ?q = "fst s @ toy_encode inp"
  from a have r: "r = Z_OK" "s1 = (drop ao ?q, snd s)" "k = length inp" "out = take ao ?q"
    by (auto simp add: toy_build_def toy_deflate_def Let_def)
  from a have c: "snd s = False" "C @ fst s = toy_encode S"
    by (simp_all add: toy_Cinv_def)
  have "(C @ take ao ?q) @ drop ao ?q = C @ ?q"
    by (simp only: append_assoc append_take_drop_id)
  also have "\<dots> = toy_encode (S @ inp)" using c(2) by simp
  finally have "toy_Cinv False s1 (S @ take k inp) (C @ out)"
    using r c(1) by (simp add: toy_Cinv_def)
  with r a show "(r = Z_OK \<or> r = Z_BUF_ERROR) \<and> k \<le> length inp \<and> length out \<le> ao
            \<and> toy_Cinv False s1 (S @ take k inp) (C @ out) \<and> (0 < k \<or> toy_mu s1 < toy_mu s)"
    by simp
qed

lemma toy_clause_finish:
  "\<forall>fin s S C ao r s1 k out.
        toy_Cinv fin s S C \<and> 0 < ao
          \<and> zlib_deflate (toy_build have_libz n) s [] ao Z_FINISH = (r, s1, k, out)
        \<longrightarrow> length out \<le> ao
            \<and> (r = Z_STREAM_END \<and> toy_valid (C @ out) S
                  \<and> zlib_deflateEnd (toy_build have_libz n) s1 = Z_OK
               \<or> (r = Z_OK \<or> r = Z_BUF_ERROR) \<and> toy_Cinv True s1 S (C @ out)
                  \<and> toy_mu s1 < toy_mu s)"
proof (intro allI impI)
  fix fin and s :: "byte list \<times> bool" and S C ao r s1 k out
  assume a: "toy_Cinv fin s S C \<and> 0 < ao
      \<and> zlib_deflate (toy_build have_libz n) s [] ao Z_FINISH = (r, s1, k, out)"
  define q where "q = fst s @ (if \<not> snd s then [0] else [])"
  from a have ao: "0 < ao" by simp
  from a have c: "snd s = fin" "C @ fst s = toy_encode S @ (if fin then [0] else [])"
    "fin \<longrightarrow> fst s \<noteq> []"
    by (simp_all add: toy_Cinv_def)
  from c have q: "C @ q = toy_encode S @ [0]" "q \<noteq> []" by (auto simp add: q_def)
  have len: "length q = toy_mu s" by (simp add: q_def toy_mu_def)
  have qq: "fst s @ toy_encode [] @ (if Z_FINISH = Z_FINISH \<and> \<not> snd s then [0] else []) = q"
    by (simp add: q_def)
  have "toy_deflate s [] ao Z_FINISH
          = (if drop ao q = [] then Z_STREAM_END
             else if take ao q = [] then Z_BUF_ERROR else Z_OK,
             (drop ao q, True), 0, take ao q)"
    unfolding toy_deflate_def Let_def qq by simp
  moreover from a have "toy_deflate s [] ao Z_FINISH = (r, s1, k, out)"
    by (simp add: toy_build_def)
  ultimately have r: "r = (if drop ao q = [] then Z_STREAM_END
                           else if take ao q = [] then Z_BUF_ERROR else Z_OK)"
    and s1: "s1 = (drop ao q, True)" and out: "out = take ao q"
    by simp_all
  from ao q(2) have t: "take ao q \<noteq> []" by (cases q) auto
  have split: "(C @ take ao q) @ drop ao q = toy_encode S @ [0]"
    using q(1) by (simp only: append_assoc append_take_drop_id)
  have lo: "length out \<le> ao" by (simp add: out)
  have "r = Z_STREAM_END \<and> toy_valid (C @ out) S
                  \<and> zlib_deflateEnd (toy_build have_libz n) s1 = Z_OK
               \<or> (r = Z_OK \<or> r = Z_BUF_ERROR) \<and> toy_Cinv True s1 S (C @ out)
                  \<and> toy_mu s1 < toy_mu s"
  proof (cases "drop ao q = []")
    case True
    with split have "C @ take ao q = toy_encode S @ [0]" by simp
    then have "toy_valid (C @ out) S" by (simp add: toy_valid_def out)
    moreover from True have "r = Z_STREAM_END" by (auto simp add: r)
    moreover have "zlib_deflateEnd (toy_build have_libz n) s1 = Z_OK"
      by (simp add: toy_build_def toy_deflateEnd_def)
    ultimately show ?thesis by blast
  next
    case False
    then have "ao < length q" by simp
    with ao have lt: "length (drop ao q) < length q" by simp
    have m1: "toy_mu s1 = length (drop ao q)" by (simp add: s1 toy_mu_def)
    have mu: "toy_mu s1 < toy_mu s" unfolding m1 len [symmetric] by (rule lt)
    from False t have rr: "r = Z_OK" by (auto simp add: r)
    have "toy_Cinv True s1 S (C @ out)"
      unfolding toy_Cinv_def s1 out using split False by simp
    with mu rr show ?thesis by blast
  qed
  with lo show "length out \<le> ao
            \<and> (r = Z_STREAM_END \<and> toy_valid (C @ out) S
                  \<and> zlib_deflateEnd (toy_build have_libz n) s1 = Z_OK
               \<or> (r = Z_OK \<or> r = Z_BUF_ERROR) \<and> toy_Cinv True s1 S (C @ out)
                  \<and> toy_mu s1 < toy_mu s)"
    by (rule conjI)
qed

lemma toy_clause_inflateInit:
  "fst (zlib_inflateInit (toy_build have_libz n)) = Z_OK"
  "toy_Dinv (snd (zlib_inflateInit (toy_build have_libz n))) [] []"
  by (simp_all add: toy_build_def toy_inflateInit_def toy_Dinv_def)

lemma toy_clause_inflate:
  "\<forall>C S d Cc Sc inp ao r d1 k out.
        toy_valid C S \<and> toy_Dinv d Cc Sc \<and> prefix (Cc @ inp) C \<and> 0 < ao
          \<and> (inp \<noteq> [] \<or> Cc = C)
          \<and> zlib_inflate (toy_build have_libz n) d inp ao = (r, d1, k, out)
        \<longrightarrow> k \<le> length inp \<and> length out \<le> ao
            \<and> (r = Z_OK \<and> toy_Dinv d1 (Cc @ take k inp) (Sc @ out)
                  \<and> (0 < k \<or> toy_nu d1 < toy_nu d)
               \<or> r = Z_STREAM_END \<and> k = length inp \<and> Cc @ inp = C \<and> Sc @ out = S
                   \<and> zlib_inflateEnd (toy_build have_libz n) d1 = Z_OK)"
proof (intro allI impI)
  fix C S and d :: "toy_mode \<times> byte list" and Cc Sc inp ao r d1 k out
  assume a: "toy_valid C S \<and> toy_Dinv d Cc Sc \<and> prefix (Cc @ inp) C \<and> 0 < ao
      \<and> (inp \<noteq> [] \<or> Cc = C)
      \<and> zlib_inflate (toy_build have_libz n) d inp ao = (r, d1, k, out)"
  from a have C: "C = toy_encode S @ [0]" by (simp add: toy_valid_def)
  from a have pre0: "prefix (Cc @ inp) C" by blast
  have pre: "prefix (Cc @ inp) (toy_encode S @ [0])" using pre0 unfolding C .
  from a have ao: "0 < ao" by blast
  from a have fresh: "inp \<noteq> [] \<or> Cc = C" by blast
  from a have "toy_Dinv d Cc Sc" by blast
  then have dinv: "foldl toy_feed (Tag, []) Cc = (fst d, Sc @ snd d)" "fst d \<noteq> Bad"
      "\<not> (fst d = Done \<and> snd d = [])"
    by (simp_all add: toy_Dinv_def)
  define e where "e = foldl toy_feed d inp"
  have "foldl toy_feed (Tag, []) (Cc @ inp) = foldl toy_feed (fst d, Sc @ snd d) inp"
    by (simp add: dinv(1))
  also have "\<dots> = (fst e, Sc @ snd e)"
    using toy_feed_queue[of "fst d" Sc "snd d" inp] by (simp add: e_def)
  finally have whole: "foldl toy_feed (Tag, []) (Cc @ inp) = (fst e, Sc @ snd e)" .
  note tp = toy_decode_prefix[OF pre, unfolded whole fst_conv snd_conv]
  have m: "fst e \<noteq> Bad" "fst e = Done \<longleftrightarrow> Cc @ inp = C"
    "Cc @ inp = C \<longrightarrow> Sc @ snd e = S"
    unfolding C using tp by blast+
  have "toy_inflate d inp ao
          = (if fst e = Done \<and> drop ao (snd e) = [] then Z_STREAM_END
             else if inp = [] \<and> take ao (snd e) = [] then Z_BUF_ERROR
             else Z_OK,
             (fst e, drop ao (snd e)), length inp, take ao (snd e))"
    unfolding toy_inflate_def Let_def e_def [symmetric] by (simp only: m(1) if_False)
  moreover from a have "toy_inflate d inp ao = (r, d1, k, out)"
    by (simp add: toy_build_def)
  ultimately have r: "r = (if fst e = Done \<and> drop ao (snd e) = [] then Z_STREAM_END
                            else if inp = [] \<and> take ao (snd e) = [] then Z_BUF_ERROR
                            else Z_OK)"
    and d1: "d1 = (fst e, drop ao (snd e))" and k: "k = length inp"
    and out: "out = take ao (snd e)"
    by simp_all
  have lo: "k \<le> length inp" "length out \<le> ao" by (simp_all add: k out)
  have "r = Z_OK \<and> toy_Dinv d1 (Cc @ take k inp) (Sc @ out)
                  \<and> (0 < k \<or> toy_nu d1 < toy_nu d)
               \<or> r = Z_STREAM_END \<and> k = length inp \<and> Cc @ inp = C \<and> Sc @ out = S
                   \<and> zlib_inflateEnd (toy_build have_libz n) d1 = Z_OK"
  proof (cases "fst e = Done \<and> drop ao (snd e) = []")
    case True
    then have "r = Z_STREAM_END" by (auto simp add: r)
    moreover from True m have "Cc @ inp = C" by blast
    moreover from this True m(3) have "Sc @ out = S" by (simp add: out)
    moreover have "zlib_inflateEnd (toy_build have_libz n) d1 = Z_OK"
      by (simp add: toy_build_def toy_inflateEnd_def)
    ultimately show ?thesis using k by blast
  next
    case False
    have nobuf: "\<not> (inp = [] \<and> take ao (snd e) = [])"
    proof
      assume x: "inp = [] \<and> take ao (snd e) = []"
      then have ed: "e = d" by (simp add: e_def)
      from x fresh have "Cc @ inp = C" by simp
      with m(2) ed have "fst d = Done" by simp
      with dinv(3) have "snd d \<noteq> []" by simp
      with x ao ed show False by (cases "snd d") auto
    qed
    from False nobuf have rr: "r = Z_OK" by (auto simp add: r)
    have "foldl toy_feed (Tag, []) (Cc @ take k inp)
            = (fst d1, (Sc @ out) @ snd d1)"
      using whole by (simp add: k d1 out)
    moreover have "fst d1 \<noteq> Bad" using m(1) by (simp add: d1)
    moreover have "\<not> (fst d1 = Done \<and> snd d1 = [])" using False by (simp add: d1)
    ultimately have dv: "toy_Dinv d1 (Cc @ take k inp) (Sc @ out)"
      unfolding toy_Dinv_def by blast
    have pr: "0 < k \<or> toy_nu d1 < toy_nu d"
    proof (cases "inp = []")
      case True
      then have ed: "e = d" by (simp add: e_def)
      from True nobuf ed have "snd d \<noteq> []" by auto
      with ao show ?thesis by (simp add: toy_nu_def d1 ed)
    next
      case no: False
      then show ?thesis by (simp add: k)
    qed
    from rr dv pr show ?thesis by blast
  qed
  with lo show "k \<le> length inp \<and> length out \<le> ao
            \<and> (r = Z_OK \<and> toy_Dinv d1 (Cc @ take k inp) (Sc @ out)
                  \<and> (0 < k \<or> toy_nu d1 < toy_nu d)
               \<or> r = Z_STREAM_END \<and> k = length inp \<and> Cc @ inp = C \<and> Sc @ out = S
                   \<and> zlib_inflateEnd (toy_build have_libz n) d1 = Z_OK)"
    by blast
qed

lemma toy_lossless:
  "lossless_codec (toy_build have_libz n) toy_valid toy_Cinv toy_mu toy_Dinv toy_nu"
  unfolding lossless_codec_def
  by (intro conjI toy_clause_init toy_clause_no_flush toy_clause_finish
      toy_clause_inflateInit toy_clause_inflate)


subsection \<open>Where the round trip holds\<close>

text \<open>
  Let the hint be in \<open>0..9\<close> and every allocation succeed.  For the hint \<open>0\<close>, let no
  write of the session have length zero.  For a hint that selects zlib, let the build
  have zlib, with an output buffer of positive size below \<open>2 ^ 32\<close> and a codec that
  meets the contract \<open>lossless_codec\<close>, and let every write be shorter than \<open>2 ^ 32\<close>
  bytes.  Then the session that writes the buffers \<open>ds\<close> one after the other returns with
  every block it allocated freed, and \<^verbatim>\<open>ReadDataFromArchive\<close> with the same hint,
  reading back the chunks the session handed to the write callback, returns as well, has
  read all the chunks, has freed its blocks, and has passed to \<^verbatim>\<open>ahwrite\<close> exactly the
  bytes written, in order.
\<close>

lemma bounded_session_read_back:
  assumes hint: "0 \<le> hint" "hint \<le> 9"
    and none: "hint = 0 \<longrightarrow> [] \<notin> set ds"
    and zlib: "hint \<noteq> 0 \<longrightarrow>
      HAVE_LIBZ env \<and> 0 < ZLIB_OUT_SIZE env \<and> ZLIB_OUT_SIZE env < 2 ^ 32
        \<and> (\<forall>d\<in>set ds. length d < 2 ^ 32)
        \<and> lossless_codec env valid Cinv \<mu> Dinv \<nu>"
    and mem: "\<forall>b. malloc_ok env b"
  shows "\<exists>chunks.
           WriteSession env hint collect ds \<lparr>AH = [], heap = {}\<rparr>
             = Some (Inr \<lparr>AH = chunks, heap = {}\<rparr>)
         \<and> ReadDataFromArchive env hint feed deliver \<lparr>AH = (chunks, []), heap = {}\<rparr>
             = Some (Inr \<lparr>AH = ([], concat ds), heap = {}\<rparr>)"
proof (cases "hint = 0")
  case True
  from none True have ne: "[] \<notin> set ds" by simp
  from mem have m: "malloc_ok env Blk_cs" "malloc_ok env Blk_read_buf" by simp_all
  from none_session_read_back[OF ne m] show ?thesis unfolding True by (rule exI)
next
  case False
  with hint have h: "1 \<le> hint" by simp
  from zlib False have lz: "HAVE_LIBZ env" and cap: "0 < ZLIB_OUT_SIZE env"
    and small: "ZLIB_OUT_SIZE env < 2 ^ 32" and len: "\<forall>d\<in>set ds. length d < 2 ^ 32"
    and L: "lossless_codec env valid Cinv \<mu> Dinv \<nu>" by simp_all
  from mem have mw: "malloc_ok env Blk_cs" "malloc_ok env Blk_zp" "malloc_ok env Blk_zlibOut"
    and mr: "malloc_ok env Blk_read_zp" "malloc_ok env Blk_read_buf"
      "malloc_ok env Blk_read_out"
    by simp_all
  from write_session_deflate[OF L lz cap mw h hint(2) len] obtain chunks where
    w: "WriteSession env hint collect ds \<lparr>AH = [], heap = {}\<rparr>
          = Some (Inr \<lparr>AH = chunks, heap = {}\<rparr>)"
    and v: "valid (concat chunks) (concat ds)" and ne: "[] \<notin> set chunks"
    and bd: "\<forall>c\<in>set chunks. length c \<le> ZLIB_OUT_SIZE env"
    by blast
  from bd small have bd': "\<forall>c\<in>set chunks. length c < 2 ^ 32" by auto
  from read_deflate[OF L v ne bd' lz cap mr h hint(2)] w show ?thesis by blast
qed

lemma bounded_session_read_back_instance:
  "WriteSession (toy_build True 3) 5 collect [[7, 8], [], [9]] \<lparr>AH = [], heap = {}\<rparr>
     = Some (Inr \<lparr>AH = [[1, 7, 1], [8, 1, 9], [0]], heap = {}\<rparr>)
   \<and> ReadDataFromArchive (toy_build True 3) 5 feed deliver
        \<lparr>AH = ([[1, 7, 1], [8, 1, 9], [0]], []), heap = {}\<rparr>
     = Some (Inr \<lparr>AH = ([], [7, 8, 9]), heap = {}\<rparr>)"
proof -
  have a: "(5 :: int) = 0 \<longrightarrow> [] \<notin> set [[7, 8], [], [9 :: byte]]" by simp
  have b: "(5 :: int) \<noteq> 0 \<longrightarrow>
      HAVE_LIBZ (toy_build True 3) \<and> 0 < ZLIB_OUT_SIZE (toy_build True 3)
        \<and> ZLIB_OUT_SIZE (toy_build True 3) < 2 ^ 32
        \<and> (\<forall>d\<in>set [[7, 8], [], [9 :: byte]]. length d < 2 ^ 32)
        \<and> lossless_codec (toy_build True 3) toy_valid toy_Cinv toy_mu toy_Dinv toy_nu"
    using toy_lossless[of True 3] by (simp add: toy_build_def)
  have c: "\<forall>b. malloc_ok (toy_build True 3) b" by (simp add: toy_build_def)
  have w: "WriteSession (toy_build True 3) 5 collect [[7, 8], [], [9]] \<lparr>AH = [], heap = {}\<rparr>
     = Some (Inr \<lparr>AH = [[1, 7, 1], [8, 1, 9], [0]], heap = {}\<rparr>)"
    by code_simp
  from bounded_session_read_back[of 5 "[[7, 8], [], [9]]" "toy_build True 3", OF _ _ a b c]
  obtain chunks where
    w': "WriteSession (toy_build True 3) 5 collect [[7, 8], [], [9]] \<lparr>AH = [], heap = {}\<rparr>
          = Some (Inr \<lparr>AH = chunks, heap = {}\<rparr>)"
    and r: "ReadDataFromArchive (toy_build True 3) 5 feed deliver
          \<lparr>AH = (chunks, []), heap = {}\<rparr>
          = Some (Inr \<lparr>AH = ([], concat [[7, 8], [], [9]]), heap = {}\<rparr>)"
    by auto
  from w w' have "chunks = [[1, 7, 1], [8, 1, 9], [0]]" by simp
  with r w show ?thesis by simp
qed

subsection \<open>Where it does not\<close>

text \<open>
  A write of \<open>2 ^ 32\<close> bytes or more to a zlib context: the stream is offered the
  first \<open>uInt dLen\<close> bytes only, and the call behaves as the write of those bytes would,
  but for the length it returns.
\<close>

lemma WriteDataToArchiveZlib_cut:
  "WriteDataToArchiveZlib env cs data w =
     (case WriteDataToArchiveZlib env cs (take (uInt (length data)) data) w of
        None \<Rightarrow> None
      | Some (Inl e) \<Rightarrow> Some (Inl e)
      | Some (Inr (n, cs1, w1)) \<Rightarrow> Some (Inr (length data, cs1, w1)))"
proof -
  have "uInt (length data) \<le> length data" by (rule uInt_le)
  then have l: "length (take (uInt (length data)) data) = uInt (length data)" by simp
  have u: "uInt (uInt (length data)) = uInt (length data)" by (simp add: uInt_mod)
  have "take (uInt (length (take (uInt (length data)) data))) (take (uInt (length data)) data)
      = take (uInt (length data)) data"
    by (simp only: l u take_take min.idem)
  then show ?thesis
    by (simp add: WriteDataToArchiveZlib_def split: option.splits sum.splits prod.splits)
qed

lemma write_of_more_than_4GiB:
  "WriteDataToArchiveZlib env cs (replicate (2 ^ 32) 7 @ [9]) w =
     (case WriteDataToArchiveZlib env cs [7] w of
        None \<Rightarrow> None
      | Some (Inl e) \<Rightarrow> Some (Inl e)
      | Some (Inr (n, cs1, w1)) \<Rightarrow> Some (Inr (2 ^ 32 + 1, cs1, w1)))"
proof -
  let ?big = "replicate (2 ^ 32) (7 :: byte) @ [9]"
  have u: "uInt (length ?big) = 1" by (simp add: uInt_mod)
  have t: "take (uInt (length ?big)) ?big = [7]" unfolding u by simp
  have l: "length ?big = 2 ^ 32 + 1" by simp
  have t': "take (uInt (2 ^ 32 + 1)) ?big = [7]" using t unfolding l .
  show ?thesis using WriteDataToArchiveZlib_cut[of env cs ?big w] unfolding l t' .
qed

text \<open>
  Claim C1 fails on the code, for the hint \<open>0\<close> and a write of length zero:
  \<^verbatim>\<open>WriteDataToArchiveNone\<close> passes the write on to the write callback as a chunk of
  length zero, and \<^verbatim>\<open>ReadDataFromArchiveNone\<close> stops at the first chunk of length zero.
  After the writes of no byte and of the byte \<open>9\<close>, the session has handed over the chunks
  \<open>[]\<close> and \<open>[9]\<close>; the reader, given them, stops before the chunk \<open>[9]\<close> and returns
  having passed nothing to \<^verbatim>\<open>ahwrite\<close>, where the claim has it pass the byte \<open>9\<close>.
\<close>

theorem round_trip_fails_on_empty_write:
  "WriteSession (toy_build True 3) 0 collect [[], [9]] \<lparr>AH = [], heap = {}\<rparr>
     = Some (Inr \<lparr>AH = [[], [9]], heap = {}\<rparr>)
   \<and> ReadDataFromArchive (toy_build True 3) 0 feed deliver
        \<lparr>AH = ([[], [9]], []), heap = {}\<rparr>
     = Some (Inr \<lparr>AH = ([[9]], []), heap = {}\<rparr>)
   \<and> snd (AH \<lparr>AH = ([[9 :: byte]], [] :: byte list), heap = {} :: block set\<rparr>)
       \<noteq> concat [[], [9]]"
  by (intro conjI) (code_simp, code_simp, simp)

end
